theory Spec2Isabelle
  imports Main "HOL-Library.Char_ord" "HOL-Library.List_Lexorder" "HOL-Library.AList"
begin

section \<open>Key sets and dependency maps\<close>

text \<open>
  A Go \<^verbatim>\<open>KeySet\<close> (\<^verbatim>\<open>map[string]struct{}\<close>) is represented by the list of its keys in
  the order in which a \<^verbatim>\<open>range\<close> loop happens to visit them; Go leaves that order
  unspecified, so every statement below is made for an arbitrary list.  A Go
  \<^verbatim>\<open>map[string]KeySet\<close> is an association list; a well-formed one has pairwise
  distinct keys.  A \<^verbatim>\<open>nil\<close> map reads like the empty one.
\<close>

type_synonym KeySet = "string list"
type_synonym DepMap = "(string \<times> KeySet) list"

text \<open>Modelled from the spec: the key-set operations of package utils (NewKeySet, Has,
  Add, Del, DeepCopy, Intersect), whose source file is not part of the sources at hand.
  DeepCopy and Intersect return a new set and leave their receiver alone.  The method
  \<^verbatim>\<open>Add\<close> is called \<open>KeySet_Add\<close> here, since the descriptor has a callback of that name.\<close>

definition NewKeySet :: KeySet where
  "NewKeySet = []"

definition Has :: "KeySet \<Rightarrow> string \<Rightarrow> bool" where
  "Has ks key = (key \<in> set ks)"

definition KeySet_Add :: "KeySet \<Rightarrow> string \<Rightarrow> KeySet" where
  "KeySet_Add ks key = List.insert key ks"

definition Del :: "KeySet \<Rightarrow> string \<Rightarrow> KeySet" where
  "Del ks key = removeAll key ks"

definition DeepCopy :: "KeySet \<Rightarrow> KeySet" where
  "DeepCopy ks = ks"

definition Intersect :: "KeySet \<Rightarrow> KeySet \<Rightarrow> KeySet" where
  "Intersect ks ks2 = filter (Has ks2) ks"

text \<open>Reading \<^verbatim>\<open>deps[k]\<close>: a missing key yields the nil key set.\<close>

definition lookup :: "DepMap \<Rightarrow> string \<Rightarrow> KeySet" where
  "lookup deps key = (case map_of deps key of None \<Rightarrow> [] | Some ks \<Rightarrow> ks)"

section \<open>DependsOn\<close>

text \<open>
  \<^verbatim>\<open>DependsOn\<close> is a depth-first search that shares one mutable \<^verbatim>\<open>visited\<close> set
  between all recursive calls.  The state-passing version returns the set together
  with the answer; \<open>DependsOn_range\<close> is the \<^verbatim>\<open>for dep := range k1Deps\<close> loop.
\<close>

function DependsOn_st :: "string \<Rightarrow> string \<Rightarrow> DepMap \<Rightarrow> KeySet \<Rightarrow> bool \<times> KeySet"
  and DependsOn_range :: "string list \<Rightarrow> string \<Rightarrow> DepMap \<Rightarrow> KeySet \<Rightarrow> bool \<times> KeySet"
where
  "DependsOn_st k1 k2 deps visited =
     (let k1Deps = lookup deps k1 in
      if Has k1Deps k2 then (True, visited)
      else DependsOn_range k1Deps k2 deps (KeySet_Add visited k1))"
| "DependsOn_range [] k2 deps visited = (False, visited)"
| "DependsOn_range (dep # rest) k2 deps visited =
     (if Has visited dep then DependsOn_range rest k2 deps visited
      else (case DependsOn_st dep k2 deps visited of
              (True, visited') \<Rightarrow> (True, visited')
            | (False, visited') \<Rightarrow> DependsOn_range rest k2 deps visited'))"
  by pat_completeness auto

lemma DependsOn_visited_grows_dom:
  "DependsOn_st_DependsOn_range_dom (Inl (k1, k2, deps, visited)) \<Longrightarrow>
     set visited \<subseteq> set (snd (DependsOn_st k1 k2 deps visited))"
  "DependsOn_st_DependsOn_range_dom (Inr (xs, k2, deps, visited)) \<Longrightarrow>
     set visited \<subseteq> set (snd (DependsOn_range xs k2 deps visited))"
proof (induct rule: DependsOn_st_DependsOn_range.pinduct)
  case (1 k1 k2 deps visited)
  then show ?case
    by (auto simp: DependsOn_st.psimps Let_def KeySet_Add_def)
next
  case (2 k2 deps visited)
  then show ?case by (simp add: DependsOn_range.psimps)
next
  case (3 dep rest k2 deps visited)
  show ?case
  proof (cases "Has visited dep")
    case True
    with 3 show ?thesis by (simp add: DependsOn_range.psimps)
  next
    case False
    obtain b v where r: "DependsOn_st dep k2 deps visited = (b, v)"
      by (cases "DependsOn_st dep k2 deps visited")
    from 3(3) [OF False] r have sub: "set visited \<subseteq> set v" by simp
    show ?thesis
    proof (cases b)
      case True
      with 3(1) False r sub show ?thesis by (simp add: DependsOn_range.psimps)
    next
      case b: False
      from 3(4) [OF False r [symmetric]] b
      have "set v \<subseteq> set (snd (DependsOn_range rest k2 deps v))" by simp
      with 3(1) False r b sub show ?thesis by (simp add: DependsOn_range.psimps)
    qed
  qed
qed

lemma lookup_not_key: "key \<notin> fst ` set deps \<Longrightarrow> lookup deps key = []"
  by (simp add: lookup_def map_of_eq_None_iff [THEN iffD2])

termination DependsOn_st
proof (relation "inv_image (less_than <*lex*> less_than)
    (\<lambda>x. case x of
       Inl (k1, k2, deps, visited) \<Rightarrow>
         (card (fst ` set deps - set visited - {k1}), 2 * length (lookup deps k1) + 1)
     | Inr (xs, k2, deps, visited) \<Rightarrow>
         (card (fst ` set deps - set visited), 2 * length xs))", goal_cases)
  case 1
  show ?case by (intro wf_inv_image wf_lex_prod wf_less_than)
next
  case (2 k1 k2 deps visited k1Deps)
  have "fst ` set deps - set (KeySet_Add visited k1) = fst ` set deps - set visited - {k1}"
    by (auto simp: KeySet_Add_def)
  with 2 show ?case by simp
next
  case (3 dep rest k2 deps visited)
  then show ?case by simp
next
  case (4 dep rest k2 deps visited)
  show ?case
  proof (cases "dep \<in> fst ` set deps")
    case True
    with 4 have "card (fst ` set deps - set visited - {dep}) < card (fst ` set deps - set visited)"
      by (intro psubset_card_mono) (auto simp: Has_def)
    then show ?thesis by simp
  next
    case False
    then have "fst ` set deps - set visited - {dep} = fst ` set deps - set visited" by auto
    with False show ?thesis by (simp add: lookup_not_key)
  qed
next
  case (5 dep rest k2 deps visited x y)
  from 5 have "DependsOn_st_DependsOn_range_dom (Inl (dep, k2, deps, visited))"
    by blast
  then have "set visited \<subseteq> set (snd (DependsOn_st dep k2 deps visited))"
    by (rule DependsOn_visited_grows_dom)
  moreover from 5 have "snd (DependsOn_st dep k2 deps visited) = y"
    by (metis snd_conv)
  ultimately have "set visited \<subseteq> set y" by simp
  then have "card (fst ` set deps - set y) \<le> card (fst ` set deps - set visited)"
    by (intro card_mono) auto
  then show ?case by auto
qed

text \<open>The exported function: a \<^verbatim>\<open>nil\<close> visited set is replaced by a fresh one.\<close>

definition DependsOn :: "string \<Rightarrow> string \<Rightarrow> DepMap \<Rightarrow> KeySet option \<Rightarrow> bool" where
  "DependsOn k1 k2 deps visited =
     fst (DependsOn_st k1 k2 deps (case visited of None \<Rightarrow> NewKeySet | Some v \<Rightarrow> v))"

section \<open>TopologicalOrder\<close>

text \<open>The two ways in which the Go function can panic: the explicit
  \<^verbatim>\<open>panic("Dependency cycle!")\<close> and the run-time panic of \<^verbatim>\<open>candidates[0]\<close> on an
  empty slice.\<close>

datatype panic = DependencyCycle | IndexOutOfRange

text \<open>Lines 52-58: the dependencies of the given keys, restricted to the given keys.\<close>

definition initRemainsDeps :: "KeySet \<Rightarrow> DepMap \<Rightarrow> DepMap" where
  "initRemainsDeps keys deps =
     map (\<lambda>(key, keyDeps). (key, Intersect keyDeps keys))
       (filter (\<lambda>(key, keyDeps). Has keys key) deps)"

text \<open>Lines 66-76: is the key a candidate for the next position?\<close>

definition isCandidate :: "bool \<Rightarrow> DepMap \<Rightarrow> string \<Rightarrow> bool" where
  "isCandidate depFirst remainsDeps key =
     (if \<not> depFirst
      then \<not> list_ex (\<lambda>(key2, key2Deps). Has key2Deps key) remainsDeps
      else length (lookup remainsDeps key) = 0)"

text \<open>Lines 63-93: the candidates of one round, with the cycle handling.\<close>

definition findCandidates ::
  "KeySet \<Rightarrow> DepMap \<Rightarrow> DepMap \<Rightarrow> bool \<Rightarrow> bool \<Rightarrow> panic + string list" where
  "findCandidates remains remainsDeps deps depFirst handleCycle =
     (let candidates = filter (isCandidate depFirst remainsDeps) remains in
      if length candidates = 0 then
        (if \<not> handleCycle then Inl DependencyCycle
         else Inr (candidates @ filter (\<lambda>key. DependsOn key key deps None) remains))
      else Inr candidates)"

text \<open>Lines 97-98: \<^verbatim>\<open>sort.Strings(candidates); key := candidates[0]\<close>.\<close>

definition selectFirst :: "string list \<Rightarrow> panic + string" where
  "selectFirst candidates =
     (case sort candidates of [] \<Rightarrow> Inl IndexOutOfRange | key # _ \<Rightarrow> Inr key)"

text \<open>Lines 103-107: drop the entry of the key and every edge that goes to it.\<close>

definition removeKey :: "string \<Rightarrow> DepMap \<Rightarrow> DepMap" where
  "removeKey key remainsDeps =
     map (\<lambda>(key2, key2Deps). (key2, Del key2Deps key))
       (filter (\<lambda>(key2, key2Deps). key2 \<noteq> key) remainsDeps)"

lemma findCandidates_subset:
  "findCandidates remains remainsDeps deps depFirst handleCycle = Inr candidates \<Longrightarrow>
     set candidates \<subseteq> set remains"
  by (auto simp: findCandidates_def Let_def split: if_splits)

lemma selectFirst_mem: "selectFirst candidates = Inr key \<Longrightarrow> key \<in> set candidates"
proof -
  assume "selectFirst candidates = Inr key"
  then obtain rest where "sort candidates = key # rest"
    by (auto simp: selectFirst_def split: list.splits)
  then have "key \<in> set (sort candidates)" by simp
  then show ?thesis by simp
qed

function TopologicalOrder_loop ::
  "KeySet \<Rightarrow> DepMap \<Rightarrow> DepMap \<Rightarrow> bool \<Rightarrow> bool \<Rightarrow> string list \<Rightarrow> panic + string list" where
  "TopologicalOrder_loop remains remainsDeps deps depFirst handleCycle sorted_out =
     (if length remains > 0 then
        (case findCandidates remains remainsDeps deps depFirst handleCycle of
           Inl p \<Rightarrow> Inl p
         | Inr candidates \<Rightarrow>
             (case selectFirst candidates of
                Inl p \<Rightarrow> Inl p
              | Inr key \<Rightarrow>
                  TopologicalOrder_loop (Del remains key) (removeKey key remainsDeps)
                    deps depFirst handleCycle (sorted_out @ [key])))
      else Inr sorted_out)"
  by pat_completeness auto
termination
proof (relation "measure (\<lambda>(remains, remainsDeps, deps, depFirst, handleCycle, sorted_out).
    length remains)", goal_cases)
  case 1
  show ?case by simp
next
  case (2 remains remainsDeps deps depFirst handleCycle sorted_out candidates key)
  then have "key \<in> set remains"
    using findCandidates_subset selectFirst_mem by (metis subsetD)
  then have "length (removeAll key remains) < length remains"
    by (simp add: length_removeAll_less)
  then show ?case by (simp add: Del_def)
qed

definition TopologicalOrder ::
  "KeySet \<Rightarrow> DepMap \<Rightarrow> bool \<Rightarrow> bool \<Rightarrow> panic + string list" where
  "TopologicalOrder keys deps depFirst handleCycle =
     TopologicalOrder_loop (DeepCopy keys) (initRemainsDeps keys deps) deps
       depFirst handleCycle []"

section \<open>The dependency graph and the correctness of the search\<close>

text \<open>An edge \<open>(a, b)\<close> says that \<open>a\<close> depends on \<open>b\<close>: \<open>b\<close> is in \<^verbatim>\<open>deps[a]\<close>.\<close>

definition edges :: "DepMap \<Rightarrow> (string \<times> string) set" where
  "edges deps = {(a, b). b \<in> set (lookup deps a)}"

lemma DependsOn_st_sound:
  "fst (DependsOn_st k1 k2 deps visited) \<Longrightarrow> (k1, k2) \<in> (edges deps)\<^sup>+"
  "fst (DependsOn_range xs k2 deps visited) \<Longrightarrow> \<exists>x\<in>set xs. (x, k2) \<in> (edges deps)\<^sup>+"
proof (induct k1 k2 deps visited and xs k2 deps visited rule: DependsOn_st_DependsOn_range.induct)
  case (1 k1 k2 deps visited)
  show ?case
  proof (cases "Has (lookup deps k1) k2")
    case True
    then have "(k1, k2) \<in> edges deps" by (simp add: edges_def Has_def)
    then show ?thesis by blast
  next
    case False
    with 1 obtain x where "x \<in> set (lookup deps k1)" "(x, k2) \<in> (edges deps)\<^sup>+"
      by (auto simp: Let_def)
    moreover then have "(k1, x) \<in> edges deps" by (simp add: edges_def)
    ultimately show ?thesis by (meson trancl_into_trancl2)
  qed
next
  case (2 k2 deps visited)
  then show ?case by simp
next
  case (3 dep rest k2 deps visited)
  then show ?case
    by (auto split: if_splits prod.splits bool.splits)
qed

text \<open>When the search fails, every key it has newly marked is closed under the edges
  and has no edge to the target.\<close>

definition closed_from :: "DepMap \<Rightarrow> string \<Rightarrow> KeySet \<Rightarrow> KeySet \<Rightarrow> bool" where
  "closed_from deps k2 v v' =
     (set v \<subseteq> set v' \<and>
      (\<forall>x\<in>set v' - set v. k2 \<notin> set (lookup deps x) \<and> set (lookup deps x) \<subseteq> set v'))"

lemma closed_from_trans:
  "closed_from deps k2 v v1 \<Longrightarrow> closed_from deps k2 v1 v' \<Longrightarrow> closed_from deps k2 v v'"
  unfolding closed_from_def by blast

lemma DependsOn_st_closed:
  "\<not> fst (DependsOn_st k1 k2 deps visited) \<Longrightarrow>
     k1 \<in> set (snd (DependsOn_st k1 k2 deps visited)) \<and>
     closed_from deps k2 visited (snd (DependsOn_st k1 k2 deps visited))"
  "\<not> fst (DependsOn_range xs k2 deps visited) \<Longrightarrow>
     set xs \<subseteq> set (snd (DependsOn_range xs k2 deps visited)) \<and>
     closed_from deps k2 visited (snd (DependsOn_range xs k2 deps visited))"
proof (induct k1 k2 deps visited and xs k2 deps visited rule: DependsOn_st_DependsOn_range.induct)
  case (1 k1 k2 deps visited)
  let ?v' = "snd (DependsOn_range (lookup deps k1) k2 deps (KeySet_Add visited k1))"
  from 1(2) have nh: "\<not> Has (lookup deps k1) k2" by (auto simp: Let_def split: if_splits)
  with 1(2) have nf: "\<not> fst (DependsOn_range (lookup deps k1) k2 deps (KeySet_Add visited k1))"
    by (simp add: Let_def)
  from 1(1) [OF refl nh nf]
  have sub: "set (lookup deps k1) \<subseteq> set ?v'"
    and cl: "closed_from deps k2 (KeySet_Add visited k1) ?v'" by simp_all
  have eq: "snd (DependsOn_st k1 k2 deps visited) = ?v'" using nh by (simp add: Let_def)
  from cl have "k1 \<in> set ?v'" by (auto simp: closed_from_def KeySet_Add_def)
  moreover have "closed_from deps k2 visited ?v'"
    using cl sub nh unfolding closed_from_def KeySet_Add_def Has_def by auto
  ultimately show ?case using eq by simp
next
  case (2 k2 deps visited)
  then show ?case by (simp add: closed_from_def)
next
  case (3 dep rest k2 deps visited)
  show ?case
  proof (cases "Has visited dep")
    case True
    with 3(1) [OF True] 3(4) show ?thesis
      by (auto simp: Has_def closed_from_def)
  next
    case False
    obtain b v1 where r: "DependsOn_st dep k2 deps visited = (b, v1)"
      by (cases "DependsOn_st dep k2 deps visited")
    with 3(4) False have nb: "\<not> b" by (auto split: if_splits)
    from 3(2) [OF False] r nb have 1: "dep \<in> set v1" "closed_from deps k2 visited v1" by simp_all
    from 3(4) False r nb have nf: "\<not> fst (DependsOn_range rest k2 deps v1)" by simp
    from 3(3) [OF False r [symmetric] _ nf] nb
    have 2: "set rest \<subseteq> set (snd (DependsOn_range rest k2 deps v1))"
      "closed_from deps k2 v1 (snd (DependsOn_range rest k2 deps v1))" by simp_all
    have eq: "snd (DependsOn_range (dep # rest) k2 deps visited) = snd (DependsOn_range rest k2 deps v1)"
      using False r nb by simp
    from 1 2 have "dep \<in> set (snd (DependsOn_range rest k2 deps v1))"
      by (auto simp: closed_from_def)
    with 2 closed_from_trans [OF 1(2) 2(2)] eq show ?thesis by simp
  qed
qed

lemma DependsOn_iff: "DependsOn k1 k2 deps None \<longleftrightarrow> (k1, k2) \<in> (edges deps)\<^sup>+"
proof
  assume "DependsOn k1 k2 deps None"
  then show "(k1, k2) \<in> (edges deps)\<^sup>+"
    by (simp add: DependsOn_def DependsOn_st_sound(1))
next
  assume path: "(k1, k2) \<in> (edges deps)\<^sup>+"
  show "DependsOn k1 k2 deps None"
  proof (rule ccontr)
    assume "\<not> DependsOn k1 k2 deps None"
    then have nf: "\<not> fst (DependsOn_st k1 k2 deps [])" by (simp add: DependsOn_def NewKeySet_def)
    define V where "V = set (snd (DependsOn_st k1 k2 deps []))"
    from DependsOn_st_closed(1) [OF nf]
    have k1: "k1 \<in> V" and cl: "\<forall>x\<in>V. k2 \<notin> set (lookup deps x) \<and> set (lookup deps x) \<subseteq> V"
      by (auto simp: closed_from_def V_def)
    have reach: "y \<in> V" if "(k1, y) \<in> (edges deps)\<^sup>*" for y
      using that by (induct rule: rtrancl_induct) (use k1 cl in \<open>auto simp: edges_def\<close>)
    from path obtain z where "(k1, z) \<in> (edges deps)\<^sup>*" "(z, k2) \<in> edges deps"
      by (meson tranclD2)
    with reach cl show False by (auto simp: edges_def)
  qed
qed

section \<open>The key selected when no ordinary candidate exists\<close>

text \<open>
  Claim C5.  If in a round of TopologicalOrder with handleCycle = true no key of the
  remaining set is an ordinary candidate, then the key that the round selects satisfies
  \<^verbatim>\<open>DependsOn(key, key, deps, nil)\<close>: it is one of the remaining keys and it is reachable
  from itself along a non-empty path of the dependency map.
\<close>

theorem cycle_fallback_key_depends_on_itself:
  assumes "filter (isCandidate depFirst remainsDeps) remains = []"
    and "findCandidates remains remainsDeps deps depFirst True = Inr candidates"
    and "selectFirst candidates = Inr key"
  shows "DependsOn key key deps None \<and> (key, key) \<in> (edges deps)\<^sup>+ \<and> Has remains key"
proof -
  from assms(1,2) have "candidates = filter (\<lambda>key. DependsOn key key deps None) remains"
    by (simp add: findCandidates_def)
  with selectFirst_mem [OF assms(3)] have "DependsOn key key deps None" "key \<in> set remains"
    by simp_all
  then show ?thesis by (simp add: DependsOn_iff Has_def)
qed

theorem cycle_fallback_key_depends_on_itself_witness:
  "filter (isCandidate True (initRemainsDeps [''b'', ''a''] [(''a'', [''b'']), (''b'', [''a''])]))
      [''b'', ''a''] = [] \<and>
   findCandidates [''b'', ''a''] (initRemainsDeps [''b'', ''a''] [(''a'', [''b'']), (''b'', [''a''])])
      [(''a'', [''b'']), (''b'', [''a''])] True True = Inr [''b'', ''a''] \<and>
   selectFirst [''b'', ''a''] = Inr ''a'' \<and>
   DependsOn ''a'' ''a'' [(''a'', [''b'']), (''b'', [''a''])] None \<and>
   (''a'', ''a'') \<in> (edges [(''a'', [''b'']), (''b'', [''a''])])\<^sup>+"
proof -
  have h1: "filter (isCandidate True (initRemainsDeps [''b'', ''a''] [(''a'', [''b'']), (''b'', [''a''])]))
      [''b'', ''a''] = []"
    by code_simp
  have h2: "findCandidates [''b'', ''a''] (initRemainsDeps [''b'', ''a''] [(''a'', [''b'']), (''b'', [''a''])])
      [(''a'', [''b'']), (''b'', [''a''])] True True = Inr [''b'', ''a'']"
    by code_simp
  have h3: "selectFirst [''b'', ''a''] = Inr ''a''"
    by code_simp
  from cycle_fallback_key_depends_on_itself [OF h1 h2 h3] h1 h2 h3 show ?thesis by simp
qed

section \<open>Properties of the main loop\<close>

text \<open>The relation that a round has to respect: \<open>(x, y)\<close> says that \<open>y\<close> has to be
  placed before \<open>x\<close>.\<close>

definition before_rel :: "bool \<Rightarrow> DepMap \<Rightarrow> (string \<times> string) set" where
  "before_rel depFirst deps = (if depFirst then edges deps else (edges deps)\<inverse>)"

definition nextKey :: "KeySet \<Rightarrow> DepMap \<Rightarrow> DepMap \<Rightarrow> bool \<Rightarrow> bool \<Rightarrow> panic + string" where
  "nextKey remains remainsDeps deps depFirst handleCycle =
     (case findCandidates remains remainsDeps deps depFirst handleCycle of
        Inl p \<Rightarrow> Inl p
      | Inr candidates \<Rightarrow> selectFirst candidates)"

declare TopologicalOrder_loop.simps [simp del]

lemma loop_unfold:
  "TopologicalOrder_loop remains remainsDeps deps depFirst handleCycle acc =
     (if remains = [] then Inr acc
      else case nextKey remains remainsDeps deps depFirst handleCycle of
             Inl p \<Rightarrow> Inl p
           | Inr key \<Rightarrow> TopologicalOrder_loop (Del remains key) (removeKey key remainsDeps)
                          deps depFirst handleCycle (acc @ [key]))"
  by (subst TopologicalOrder_loop.simps) (simp add: nextKey_def split: sum.splits)

lemma nextKey_mem:
  "nextKey remains remainsDeps deps depFirst handleCycle = Inr key \<Longrightarrow> key \<in> set remains"
  unfolding nextKey_def
  by (auto split: sum.splits dest: findCandidates_subset selectFirst_mem)

lemma length_Del_less: "key \<in> set remains \<Longrightarrow> length (Del remains key) < length remains"
  by (simp add: Del_def length_removeAll_less)

lemma loop_acc:
  "TopologicalOrder_loop remains remainsDeps deps depFirst handleCycle acc =
     map_sum id ((@) acc) (TopologicalOrder_loop remains remainsDeps deps depFirst handleCycle [])"
proof (induct "length remains" arbitrary: remains remainsDeps acc rule: less_induct)
  case less
  show ?case
  proof (cases "remains = []")
    case True
    then show ?thesis by (simp add: loop_unfold)
  next
    case False
    show ?thesis
    proof (cases "nextKey remains remainsDeps deps depFirst handleCycle")
      case (Inl p)
      with False show ?thesis by (simp add: loop_unfold [of remains])
    next
      case (Inr key)
      then have "length (Del remains key) < length remains"
        by (intro length_Del_less nextKey_mem)
      from less [OF this, of "removeKey key remainsDeps" "acc @ [key]"]
        less [OF this, of "removeKey key remainsDeps" "[key]"]
      show ?thesis using False Inr
        by (cases "TopologicalOrder_loop (Del remains key) (removeKey key remainsDeps)
              deps depFirst handleCycle []")
          (simp_all add: loop_unfold [of remains])
    qed
  qed
qed

lemma map_of_initRemainsDeps:
  "map_of (initRemainsDeps remains deps) key =
     (if key \<in> set remains then map_option (filter (\<lambda>d. d \<in> set remains)) (map_of deps key)
      else None)"
  by (induct deps) (auto simp: initRemainsDeps_def Has_def [abs_def] Intersect_def)

lemma lookup_initRemainsDeps:
  "lookup (initRemainsDeps remains deps) key =
     (if key \<in> set remains then filter (\<lambda>d. d \<in> set remains) (lookup deps key) else [])"
  by (simp add: lookup_def map_of_initRemainsDeps split: option.splits)

lemma removeKey_initRemainsDeps:
  "removeKey key (initRemainsDeps remains deps) = initRemainsDeps (Del remains key) deps"
  by (induct deps)
    (auto simp: removeKey_def initRemainsDeps_def Has_def [abs_def] Del_def Intersect_def
      removeAll_filter_not_eq intro: filter_cong)

lemma isCandidate_depFirst:
  "key \<in> set remains \<Longrightarrow>
     isCandidate True (initRemainsDeps remains deps) key \<longleftrightarrow>
       (\<forall>b\<in>set remains. (key, b) \<notin> edges deps)"
  by (auto simp: isCandidate_def lookup_initRemainsDeps edges_def filter_empty_conv)

lemma entry_lookup:
  "distinct (map fst deps) \<Longrightarrow> (k, ds) \<in> set deps \<Longrightarrow> lookup deps k = ds"
  by (simp add: lookup_def)

lemma lookup_entry:
  "b \<in> set (lookup deps a) \<Longrightarrow> \<exists>ds. (a, ds) \<in> set deps \<and> b \<in> set ds"
  by (cases "map_of deps a") (auto simp: lookup_def dest: map_of_SomeD)

lemma isCandidate_not_depFirst:
  assumes "distinct (map fst deps)" and "key \<in> set remains"
  shows "isCandidate False (initRemainsDeps remains deps) key \<longleftrightarrow>
       (\<forall>a\<in>set remains. (a, key) \<notin> edges deps)"
proof -
  have "list_ex (\<lambda>(key2, key2Deps). Has key2Deps key) (initRemainsDeps remains deps) \<longleftrightarrow>
      (\<exists>(k2, ds)\<in>set deps. k2 \<in> set remains \<and> key \<in> set ds)"
    using assms(2)
    by (auto simp: list_ex_iff initRemainsDeps_def Has_def Intersect_def)
  also have "\<dots> \<longleftrightarrow> (\<exists>a\<in>set remains. (a, key) \<in> edges deps)"
    using entry_lookup [OF assms(1)] lookup_entry [of key deps]
    by (fastforce simp: edges_def)
  finally show ?thesis by (simp add: isCandidate_def)
qed

lemma isCandidate_before_rel:
  assumes "distinct (map fst deps)" and "key \<in> set remains"
  shows "isCandidate depFirst (initRemainsDeps remains deps) key \<longleftrightarrow>
       (\<forall>b\<in>set remains. (key, b) \<notin> before_rel depFirst deps)"
  using isCandidate_depFirst [OF assms(2)] isCandidate_not_depFirst [OF assms]
  by (cases depFirst) (simp_all add: before_rel_def)

lemma selectFirst_Min:
  "selectFirst candidates =
     (if candidates = [] then Inl IndexOutOfRange else Inr (Min (set candidates)))"
proof (cases "sort candidates")
  case Nil
  then have "candidates = []" by (metis length_sort length_0_conv)
  with Nil show ?thesis by (simp add: selectFirst_def)
next
  case (Cons key rest)
  have "sorted (sort candidates)" by simp
  with Cons have le: "\<forall>x\<in>set rest. key \<le> x" by simp
  have "set candidates = insert key (set rest)"
    using Cons by (metis list.simps(15) set_sort)
  with le have "Min (set candidates) = key"
    by (intro Min_eqI) auto
  moreover from Cons have "candidates \<noteq> []" by auto
  ultimately show ?thesis using Cons by (simp add: selectFirst_def)
qed

lemma cycle_exists:
  assumes "finite S" and "S \<noteq> {}" and succ: "\<forall>x\<in>S. \<exists>y\<in>S. (x, y) \<in> r"
  shows "\<exists>x\<in>S. (x, x) \<in> r\<^sup>+"
proof (rule ccontr)
  assume no: "\<not> (\<exists>x\<in>S. (x, x) \<in> r\<^sup>+)"
  let ?r = "r \<inter> S \<times> S"
  have fin: "finite ?r" using assms(1) by simp
  have sub: "?r\<^sup>+ \<subseteq> r\<^sup>+" by (intro trancl_mono_subset) simp
  have "acyclic ?r"
    unfolding acyclic_def
  proof (intro allI notI)
    fix x assume x: "(x, x) \<in> ?r\<^sup>+"
    then have "(x, x) \<in> r\<^sup>+" using sub by blast
    moreover from x have "x \<in> S" by (metis IntD2 SigmaD1 tranclD)
    ultimately show False using no by blast
  qed
  with fin have "wf (?r\<inverse>)" by (rule finite_acyclic_wf_converse)
  then obtain z where z: "z \<in> S" "\<And>y. (y, z) \<in> ?r\<inverse> \<Longrightarrow> y \<notin> S"
    using assms(2) by (metis all_not_in_conv wfE_min)
  from succ z(1) obtain y where "y \<in> S" "(z, y) \<in> r" by blast
  with z show False by blast
qed

text \<open>The candidates of a round, as sets.\<close>

definition ordinary :: "bool \<Rightarrow> DepMap \<Rightarrow> string set \<Rightarrow> string set" where
  "ordinary depFirst deps R = {k \<in> R. \<forall>b\<in>R. (k, b) \<notin> before_rel depFirst deps}"

definition cyclic :: "DepMap \<Rightarrow> string set \<Rightarrow> string set" where
  "cyclic deps R = {k \<in> R. (k, k) \<in> (edges deps)\<^sup>+}"

lemma before_rel_trancl_refl:
  "(k, k) \<in> (before_rel depFirst deps)\<^sup>+ \<longleftrightarrow> (k, k) \<in> (edges deps)\<^sup>+"
  by (cases depFirst) (auto simp: before_rel_def trancl_converse)

lemma cyclic_nonempty:
  assumes "R \<noteq> {}" and "finite R" and "ordinary depFirst deps R = {}"
  shows "cyclic deps R \<noteq> {}"
proof -
  from assms(3) have "\<forall>x\<in>R. \<exists>y\<in>R. (x, y) \<in> before_rel depFirst deps"
    by (auto simp: ordinary_def)
  from cycle_exists [OF assms(2,1) this]
  show ?thesis by (auto simp: cyclic_def before_rel_trancl_refl)
qed

lemma filter_isCandidate:
  assumes "distinct (map fst deps)"
  shows "set (filter (isCandidate depFirst (initRemainsDeps remains deps)) remains) =
      ordinary depFirst deps (set remains)"
  using isCandidate_before_rel [OF assms] by (auto simp: ordinary_def)

lemma nextKey_char:
  assumes "distinct (map fst deps)"
  shows "nextKey remains (initRemainsDeps remains deps) deps depFirst handleCycle =
     (if ordinary depFirst deps (set remains) \<noteq> {}
      then Inr (Min (ordinary depFirst deps (set remains)))
      else if \<not> handleCycle then Inl DependencyCycle
      else if cyclic deps (set remains) = {} then Inl IndexOutOfRange
      else Inr (Min (cyclic deps (set remains))))"
proof -
  let ?cs = "filter (isCandidate depFirst (initRemainsDeps remains deps)) remains"
  have cs: "set ?cs = ordinary depFirst deps (set remains)"
    by (rule filter_isCandidate [OF assms])
  have cyc: "set (filter (\<lambda>key. DependsOn key key deps None) remains) = cyclic deps (set remains)"
    by (auto simp: cyclic_def DependsOn_iff)
  show ?thesis
  proof (cases "?cs = []")
    case True
    with cs have "ordinary depFirst deps (set remains) = {}" by simp
    with True cyc show ?thesis
      by (simp add: nextKey_def findCandidates_def selectFirst_Min del: set_filter)
        (metis set_empty)
  next
    case False
    with cs have "ordinary depFirst deps (set remains) \<noteq> {}" by (metis set_empty)
    with False cs show ?thesis
      by (simp add: nextKey_def findCandidates_def selectFirst_Min Let_def del: set_filter)
  qed
qed

lemma nextKey_handleCycle:
  assumes "distinct (map fst deps)" and "remains \<noteq> []"
  shows "\<exists>key. nextKey remains (initRemainsDeps remains deps) deps depFirst True = Inr key"
proof (cases "ordinary depFirst deps (set remains) = {}")
  case True
  from assms(2) have "set remains \<noteq> {}" by simp
  from cyclic_nonempty [OF this _ True] have "cyclic deps (set remains) \<noteq> {}" by simp
  with True show ?thesis by (simp add: nextKey_char [OF assms(1)])
next
  case False
  then show ?thesis by (simp add: nextKey_char [OF assms(1)])
qed

lemma set_Del: "set (Del remains key) = set remains - {key}"
  by (simp add: Del_def)

lemma loop_handleCycle:
  assumes "distinct (map fst deps)"
  shows "\<exists>out. TopologicalOrder_loop remains (initRemainsDeps remains deps) deps depFirst True []
            = Inr out \<and> distinct out \<and> set out = set remains"
proof (induct "length remains" arbitrary: remains rule: less_induct)
  case less
  show ?case
  proof (cases "remains = []")
    case True
    then show ?thesis by (simp add: loop_unfold)
  next
    case False
    from nextKey_handleCycle [OF assms False] obtain key
      where key: "nextKey remains (initRemainsDeps remains deps) deps depFirst True = Inr key"
      by blast
    then have mem: "key \<in> set remains" by (rule nextKey_mem)
    from less [OF length_Del_less [OF mem]] obtain out
      where out: "TopologicalOrder_loop (Del remains key) (initRemainsDeps (Del remains key) deps)
          deps depFirst True [] = Inr out" "distinct out" "set out = set (Del remains key)"
      by blast
    have "TopologicalOrder_loop remains (initRemainsDeps remains deps) deps depFirst True []
        = Inr (key # out)"
      using False key out(1)
      by (simp add: loop_unfold [of remains] removeKey_initRemainsDeps
          loop_acc [of _ _ _ _ _ "[key]"])
    with out(2,3) mem show ?thesis by (auto simp: set_Del)
  qed
qed

text \<open>\<open>precedes x y xs\<close>: \<open>y\<close> occurs in \<open>xs\<close> after the first occurrence of \<open>x\<close>.\<close>

fun precedes :: "'a \<Rightarrow> 'a \<Rightarrow> 'a list \<Rightarrow> bool" where
  "precedes x y [] = False"
| "precedes x y (z # zs) = (if z = x then y \<in> set zs else precedes x y zs)"

text \<open>Two keys lie in one strongly-connected component of the dependency map.\<close>

definition sameSCC :: "DepMap \<Rightarrow> string \<Rightarrow> string \<Rightarrow> bool" where
  "sameSCC deps a b = (a = b \<or> (DependsOn a b deps None \<and> DependsOn b a deps None))"

lemma loop_result_set:
  "TopologicalOrder_loop remains remainsDeps deps depFirst handleCycle [] = Inr out \<Longrightarrow>
     distinct out \<and> set out = set remains"
proof (induct "length remains" arbitrary: remains remainsDeps out rule: less_induct)
  case less
  show ?case
  proof (cases "remains = []")
    case True
    with less(2) show ?thesis by (simp add: loop_unfold)
  next
    case False
    with less(2) obtain key
      where key: "nextKey remains remainsDeps deps depFirst handleCycle = Inr key"
      by (cases "nextKey remains remainsDeps deps depFirst handleCycle")
        (simp_all add: loop_unfold [of remains])
    then have mem: "key \<in> set remains" by (rule nextKey_mem)
    from less(2) False key obtain out'
      where out': "TopologicalOrder_loop (Del remains key) (removeKey key remainsDeps)
          deps depFirst handleCycle [] = Inr out'" "out = key # out'"
      by (cases "TopologicalOrder_loop (Del remains key) (removeKey key remainsDeps)
            deps depFirst handleCycle []")
        (auto simp: loop_unfold [of remains] loop_acc [of _ _ _ _ _ "[key]"])
    from less(1) [OF length_Del_less [OF mem] out'(1)] out'(2) mem
    show ?thesis by (auto simp: set_Del)
  qed
qed

lemma nextKey_choice:
  assumes "distinct (map fst deps)"
    and "nextKey remains (initRemainsDeps remains deps) deps depFirst handleCycle = Inr key"
  shows "key \<in> ordinary depFirst deps (set remains) \<or> key \<in> cyclic deps (set remains)"
proof -
  have fin: "finite (ordinary depFirst deps (set remains))" "finite (cyclic deps (set remains))"
    by (simp_all add: ordinary_def cyclic_def)
  from assms(2) show ?thesis
    unfolding nextKey_char [OF assms(1)]
    using Min_in [OF fin(1)] Min_in [OF fin(2)]
    by (auto split: if_splits)
qed

lemma loop_order:
  assumes "distinct (map fst deps)"
  shows "TopologicalOrder_loop remains (initRemainsDeps remains deps) deps depFirst handleCycle []
      = Inr out \<Longrightarrow> x \<in> set remains \<Longrightarrow> y \<in> set remains \<Longrightarrow>
    (y, x) \<in> before_rel depFirst deps \<Longrightarrow> (y, y) \<notin> (edges deps)\<^sup>+ \<Longrightarrow> precedes x y out"
proof (induct "length remains" arbitrary: remains out rule: less_induct)
  case less
  from less(3) have ne: "remains \<noteq> []" by auto
  with less(2) obtain key
    where key: "nextKey remains (initRemainsDeps remains deps) deps depFirst handleCycle = Inr key"
    by (cases "nextKey remains (initRemainsDeps remains deps) deps depFirst handleCycle")
      (simp_all add: loop_unfold [of remains])
  then have mem: "key \<in> set remains" by (rule nextKey_mem)
  from less(2) ne key obtain out'
    where out': "TopologicalOrder_loop (Del remains key) (initRemainsDeps (Del remains key) deps)
        deps depFirst handleCycle [] = Inr out'" "out = key # out'"
    by (cases "TopologicalOrder_loop (Del remains key) (initRemainsDeps (Del remains key) deps)
          deps depFirst handleCycle []")
      (auto simp: loop_unfold [of remains] loop_acc [of _ _ _ _ _ "[key]"]
        removeKey_initRemainsDeps)
  from loop_result_set [OF out'(1)] have set': "set out' = set remains - {key}"
    by (simp add: set_Del)
  have "key \<noteq> y"
  proof
    assume "key = y"
    with nextKey_choice [OF assms key] less(6)
    have "y \<in> ordinary depFirst deps (set remains)" by (auto simp: cyclic_def)
    with less(3,5) show False by (auto simp: ordinary_def)
  qed
  show ?case
  proof (cases "key = x")
    case True
    with out'(2) set' less(4) \<open>key \<noteq> y\<close> show ?thesis by simp
  next
    case False
    with less(3,4) \<open>key \<noteq> y\<close> have "x \<in> set (Del remains key)" "y \<in> set (Del remains key)"
      by (simp_all add: set_Del)
    from less(1) [OF length_Del_less [OF mem] out'(1) this less(5,6)] False out'(2)
    show ?thesis by simp
  qed
qed

lemma ordinary_cong:
  "edges deps = edges deps' \<Longrightarrow> ordinary depFirst deps R = ordinary depFirst deps' R"
  by (simp add: ordinary_def before_rel_def)

lemma cyclic_cong: "edges deps = edges deps' \<Longrightarrow> cyclic deps R = cyclic deps' R"
  by (simp add: cyclic_def)

lemma loop_deterministic:
  assumes "distinct (map fst deps)" and "distinct (map fst deps')"
    and "edges deps = edges deps'"
  shows "set remains = set remains' \<Longrightarrow>
    TopologicalOrder_loop remains (initRemainsDeps remains deps) deps depFirst handleCycle [] =
    TopologicalOrder_loop remains' (initRemainsDeps remains' deps') deps' depFirst handleCycle []"
proof (induct "length remains" arbitrary: remains remains' rule: less_induct)
  case less
  show ?case
  proof (cases "remains = []")
    case True
    with less(2) have "remains' = []" by simp
    with True show ?thesis by (simp add: loop_unfold)
  next
    case False
    with less(2) have ne': "remains' \<noteq> []" by auto
    have same: "nextKey remains (initRemainsDeps remains deps) deps depFirst handleCycle =
        nextKey remains' (initRemainsDeps remains' deps') deps' depFirst handleCycle"
      by (simp add: nextKey_char assms(1,2) less(2)
          ordinary_cong [OF assms(3)] cyclic_cong [OF assms(3)])
    show ?thesis
    proof (cases "nextKey remains (initRemainsDeps remains deps) deps depFirst handleCycle")
      case (Inl p)
      moreover from Inl same
      have "nextKey remains' (initRemainsDeps remains' deps') deps' depFirst handleCycle = Inl p"
        by simp
      ultimately show ?thesis using False ne'
        by (simp add: loop_unfold [of remains] loop_unfold [of remains'])
    next
      case (Inr key)
      then have mem: "key \<in> set remains" by (rule nextKey_mem)
      from less(2) have "set (Del remains key) = set (Del remains' key)" by (simp add: set_Del)
      from less(1) [OF length_Del_less [OF mem] this]
      have "TopologicalOrder_loop (Del remains key) (initRemainsDeps (Del remains key) deps)
          deps depFirst handleCycle [] =
        TopologicalOrder_loop (Del remains' key) (initRemainsDeps (Del remains' key) deps')
          deps' depFirst handleCycle []" .
      moreover from Inr same
      have "nextKey remains' (initRemainsDeps remains' deps') deps' depFirst handleCycle = Inr key"
        by simp
      ultimately show ?thesis using Inr False ne'
        by (simp add: loop_unfold [of remains] loop_unfold [of remains']
            removeKey_initRemainsDeps loop_acc [of _ _ _ _ _ "[key]"])
    qed
  qed
qed

lemma edges_eqI: "(\<And>k. set (lookup deps k) = set (lookup deps' k)) \<Longrightarrow> edges deps = edges deps'"
  by (simp add: edges_def)

text \<open>The keys that remain when round \<open>i\<close> of a run with the output \<open>out\<close> starts.\<close>

definition round_remains :: "KeySet \<Rightarrow> string list \<Rightarrow> nat \<Rightarrow> KeySet" where
  "round_remains keys out i = filter (\<lambda>key. key \<notin> set (take i out)) keys"

lemma loop_step:
  assumes "findCandidates remains remainsDeps deps depFirst handleCycle = Inr candidates"
    and "selectFirst candidates = Inr key"
  shows "TopologicalOrder_loop remains remainsDeps deps depFirst handleCycle acc =
      (case TopologicalOrder_loop (Del remains key) (removeKey key remainsDeps) deps
              depFirst handleCycle [] of
         Inl p \<Rightarrow> Inl p
       | Inr rest \<Rightarrow> Inr (acc @ key # rest))"
proof -
  from selectFirst_mem [OF assms(2)] findCandidates_subset [OF assms(1)]
  have "remains \<noteq> []" by auto
  with assms have "TopologicalOrder_loop remains remainsDeps deps depFirst handleCycle acc =
      TopologicalOrder_loop (Del remains key) (removeKey key remainsDeps) deps
        depFirst handleCycle (acc @ [key])"
    by (simp add: loop_unfold [of remains] nextKey_def)
  also have "\<dots> = (case TopologicalOrder_loop (Del remains key) (removeKey key remainsDeps) deps
              depFirst handleCycle [] of
         Inl p \<Rightarrow> Inl p
       | Inr rest \<Rightarrow> Inr (acc @ key # rest))"
    by (subst loop_acc) (simp split: sum.splits)
  finally show ?thesis .
qed

lemma loop_rounds:
  "TopologicalOrder_loop remains (initRemainsDeps remains deps) deps depFirst handleCycle []
      = Inr out \<Longrightarrow> i < length out \<Longrightarrow>
    \<exists>candidates.
      findCandidates (round_remains remains out i)
        (initRemainsDeps (round_remains remains out i) deps) deps depFirst handleCycle
        = Inr candidates \<and>
      Has candidates (out ! i) \<and> (\<forall>c\<in>set candidates. out ! i \<le> c)"
proof (induct "length remains" arbitrary: remains out i rule: less_induct)
  case less
  from less(3) have "out \<noteq> []" by auto
  with less(2) have ne: "remains \<noteq> []" by (auto simp: loop_unfold [of "[]"])
  with less(2) obtain key
    where key: "nextKey remains (initRemainsDeps remains deps) deps depFirst handleCycle = Inr key"
    by (cases "nextKey remains (initRemainsDeps remains deps) deps depFirst handleCycle")
      (simp_all add: loop_unfold [of remains])
  then obtain candidates
    where fc: "findCandidates remains (initRemainsDeps remains deps) deps depFirst handleCycle
        = Inr candidates"
      and sf: "selectFirst candidates = Inr key"
    by (auto simp: nextKey_def split: sum.splits)
  from key have mem: "key \<in> set remains" by (rule nextKey_mem)
  from less(2) loop_step [OF fc sf, of "[]"] obtain rest
    where rest: "TopologicalOrder_loop (Del remains key) (initRemainsDeps (Del remains key) deps)
        deps depFirst handleCycle [] = Inr rest" and out: "out = key # rest"
    by (auto simp: removeKey_initRemainsDeps split: sum.splits)
  show ?case
  proof (cases i)
    case 0
    from sf have "candidates \<noteq> []" "key = Min (set candidates)"
      by (simp_all add: selectFirst_Min split: if_splits)
    with fc out 0 show ?thesis by (simp add: round_remains_def Has_def)
  next
    case (Suc j)
    with less(3) out have j: "j < length rest" by simp
    have "round_remains remains out i = round_remains (Del remains key) rest j"
      by (auto simp: round_remains_def out Suc Del_def removeAll_filter_not_eq intro: filter_cong)
    with less(1) [OF length_Del_less [OF mem] rest j] out Suc show ?thesis by simp
  qed
qed

lemma edges_initRemainsDeps:
  "edges (initRemainsDeps keys deps) = edges deps \<inter> set keys \<times> set keys"
  by (auto simp: edges_def lookup_initRemainsDeps split: if_splits)

text \<open>Inside the key set, some key on a dependency cycle can be reached from \<open>b\<close>
  (\<open>b\<close> itself counts); respectively, \<open>a\<close> can be reached from some key on a cycle.\<close>

definition reachesCycle :: "KeySet \<Rightarrow> DepMap \<Rightarrow> string \<Rightarrow> bool" where
  "reachesCycle keys deps b =
     list_ex (\<lambda>c. (c = b \<or> DependsOn b c (initRemainsDeps keys deps) None) \<and>
                 DependsOn c c (initRemainsDeps keys deps) None) keys"

definition reachedFromCycle :: "KeySet \<Rightarrow> DepMap \<Rightarrow> string \<Rightarrow> bool" where
  "reachedFromCycle keys deps a =
     list_ex (\<lambda>c. (c = a \<or> DependsOn c a (initRemainsDeps keys deps) None) \<and>
                 DependsOn c c (initRemainsDeps keys deps) None) keys"

lemma reachesCycle_iff:
  "reachesCycle keys deps b \<longleftrightarrow>
     (\<exists>c. (b, c) \<in> (edges deps \<inter> set keys \<times> set keys)\<^sup>* \<and>
          (c, c) \<in> (edges deps \<inter> set keys \<times> set keys)\<^sup>+)"
proof -
  let ?r = "edges deps \<inter> set keys \<times> set keys"
  have mem: "c \<in> set keys" if "(c, c) \<in> ?r\<^sup>+" for c
    using that by (metis IntD2 SigmaD1 tranclD)
  show ?thesis
    unfolding reachesCycle_def list_ex_iff DependsOn_iff edges_initRemainsDeps
    by (auto simp: rtrancl_eq_or_trancl dest: mem)
qed

lemma reachedFromCycle_iff:
  "reachedFromCycle keys deps a \<longleftrightarrow>
     (\<exists>c. (c, a) \<in> (edges deps \<inter> set keys \<times> set keys)\<^sup>* \<and>
          (c, c) \<in> (edges deps \<inter> set keys \<times> set keys)\<^sup>+)"
proof -
  let ?r = "edges deps \<inter> set keys \<times> set keys"
  have mem: "c \<in> set keys" if "(c, c) \<in> ?r\<^sup>+" for c
    using that by (metis IntD2 SigmaD1 tranclD)
  show ?thesis
    unfolding reachedFromCycle_def list_ex_iff DependsOn_iff edges_initRemainsDeps
    by (auto simp: rtrancl_eq_or_trancl dest: mem)
qed

text \<open>In a finite set in which every element has a successor, a cycle can be reached
  from every element.\<close>

lemma cycle_reachable:
  assumes "finite S" and "x \<in> S" and succ: "\<forall>y\<in>S. \<exists>z\<in>S. (y, z) \<in> r"
  shows "\<exists>c. (x, c) \<in> (r \<inter> S \<times> S)\<^sup>* \<and> (c, c) \<in> (r \<inter> S \<times> S)\<^sup>+"
proof -
  let ?r = "r \<inter> S \<times> S"
  let ?T = "{c \<in> S. (x, c) \<in> ?r\<^sup>*}"
  have fin: "finite ?T" using assms(1) by simp
  have ne: "?T \<noteq> {}" using assms(2) by auto
  have "\<forall>y\<in>?T. \<exists>z\<in>?T. (y, z) \<in> ?r"
  proof
    fix y assume y: "y \<in> ?T"
    with succ obtain z where z: "z \<in> S" "(y, z) \<in> r" by blast
    with y have yz: "(y, z) \<in> ?r" by simp
    from y have "(x, y) \<in> ?r\<^sup>*" by simp
    from this yz have "(x, z) \<in> ?r\<^sup>*" by (rule rtrancl.rtrancl_into_rtrancl)
    with yz show "\<exists>z\<in>?T. (y, z) \<in> ?r" using z(1) by blast
  qed
  from cycle_exists [OF fin ne this] show ?thesis by blast
qed


lemma nextKey_choice_fallback:
  assumes "distinct (map fst deps)"
    and "nextKey remains (initRemainsDeps remains deps) deps depFirst handleCycle = Inr key"
  shows "key \<in> ordinary depFirst deps (set remains) \<or>
    (ordinary depFirst deps (set remains) = {} \<and> key \<in> cyclic deps (set remains))"
proof -
  have fin: "finite (ordinary depFirst deps (set remains))" "finite (cyclic deps (set remains))"
    by (simp_all add: ordinary_def cyclic_def)
  from assms(2) show ?thesis
    unfolding nextKey_char [OF assms(1)]
    using Min_in [OF fin(1)] Min_in [OF fin(2)]
    by (auto split: if_splits)
qed

lemma loop_order_strong:
  assumes "distinct (map fst deps)"
  shows "TopologicalOrder_loop remains (initRemainsDeps remains deps) deps depFirst handleCycle []
      = Inr out \<Longrightarrow> x \<in> set remains \<Longrightarrow> y \<in> set remains \<Longrightarrow> set remains \<subseteq> K \<Longrightarrow>
    (y, x) \<in> before_rel depFirst deps \<Longrightarrow>
    (y, y) \<notin> (edges deps)\<^sup>+ \<or>
      (\<forall>c. (x, c) \<in> (before_rel depFirst deps \<inter> K \<times> K)\<^sup>* \<longrightarrow>
           (c, c) \<notin> (before_rel depFirst deps \<inter> K \<times> K)\<^sup>+) \<Longrightarrow>
    precedes x y out"
proof (induct "length remains" arbitrary: remains out rule: less_induct)
  case less
  let ?G = "before_rel depFirst deps"
  from less(3) have ne: "remains \<noteq> []" by auto
  with less(2) obtain key
    where key: "nextKey remains (initRemainsDeps remains deps) deps depFirst handleCycle = Inr key"
    by (cases "nextKey remains (initRemainsDeps remains deps) deps depFirst handleCycle")
      (simp_all add: loop_unfold [of remains])
  then have mem: "key \<in> set remains" by (rule nextKey_mem)
  from less(2) ne key obtain out'
    where out': "TopologicalOrder_loop (Del remains key) (initRemainsDeps (Del remains key) deps)
        deps depFirst handleCycle [] = Inr out'" "out = key # out'"
    by (cases "TopologicalOrder_loop (Del remains key) (initRemainsDeps (Del remains key) deps)
          deps depFirst handleCycle []")
      (auto simp: loop_unfold [of remains] loop_acc [of _ _ _ _ _ "[key]"]
        removeKey_initRemainsDeps)
  from loop_result_set [OF out'(1)] have set': "set out' = set remains - {key}"
    by (simp add: set_Del)
  have "key \<noteq> y"
  proof
    assume ky: "key = y"
    from nextKey_choice_fallback [OF assms key]
    show False
    proof
      assume "key \<in> ordinary depFirst deps (set remains)"
      with ky less(3,6) show False by (auto simp: ordinary_def)
    next
      assume fb: "ordinary depFirst deps (set remains) = {} \<and> key \<in> cyclic deps (set remains)"
      then have succ: "\<forall>u\<in>set remains. \<exists>v\<in>set remains. (u, v) \<in> ?G"
        by (auto simp: ordinary_def)
      from cycle_reachable [OF _ less(3) succ] obtain c
        where c: "(x, c) \<in> (?G \<inter> set remains \<times> set remains)\<^sup>*"
          "(c, c) \<in> (?G \<inter> set remains \<times> set remains)\<^sup>+" by auto
      have sub: "?G \<inter> set remains \<times> set remains \<subseteq> ?G \<inter> K \<times> K" using less(5) by auto
      from c(1) rtrancl_mono [OF sub] have 1: "(x, c) \<in> (?G \<inter> K \<times> K)\<^sup>*" by blast
      from c(2) trancl_mono [OF _ sub] have 2: "(c, c) \<in> (?G \<inter> K \<times> K)\<^sup>+" by blast
      from fb ky have "(y, y) \<in> (edges deps)\<^sup>+" by (simp add: cyclic_def)
      with less(7) 1 2 show False by blast
    qed
  qed
  show ?case
  proof (cases "key = x")
    case True
    with out'(2) set' less(4) \<open>key \<noteq> y\<close> show ?thesis by simp
  next
    case False
    with less(3,4) \<open>key \<noteq> y\<close> have "x \<in> set (Del remains key)" "y \<in> set (Del remains key)"
      by (simp_all add: set_Del)
    moreover from less(5) have "set (Del remains key) \<subseteq> K" by (auto simp: set_Del)
    ultimately show ?thesis
      using less(1) [OF length_Del_less [OF mem] out'(1) _ _ _ less(6,7)] False out'(2)
      by simp
  qed
qed

section \<open>Order, completeness and determinism of the result\<close>

text \<open>An input with the two dependency cycles \<open>a \<leftrightarrow> b\<close> and \<open>c \<leftrightarrow> d\<close>, where \<open>a\<close>
  also depends on \<open>c\<close>, and \<open>e\<close> depends on \<open>a\<close>.\<close>

definition two_components_keys :: KeySet where
  "two_components_keys = [''a'', ''b'', ''c'', ''d'', ''e'']"

definition two_components_deps :: DepMap where
  "two_components_deps =
     [(''a'', [''b'', ''c'']), (''b'', [''a'']), (''c'', [''d'']), (''d'', [''c'']), (''e'', [''a''])]"

text \<open>The three keys \<open>a/1\<close>, \<open>a/2\<close>, \<open>a/3\<close> on one dependency cycle, and \<open>a/3\<close> depending
  also on \<open>a/4\<close>.\<close>

definition cycle_with_exit_keys :: KeySet where
  "cycle_with_exit_keys = [''a/1'', ''a/2'', ''a/3'', ''a/4'']"

definition cycle_with_exit_deps :: DepMap where
  "cycle_with_exit_deps =
     [(''a/1'', [''a/2'']), (''a/2'', [''a/3'']), (''a/3'', [''a/1'', ''a/4''])]"

text \<open>
  Claim C1, as amended.  Let \<open>b\<close> be in \<^verbatim>\<open>deps[a]\<close> (\<open>a\<close> depends on \<open>b\<close>), both keys in
  the key set, and the dependency map well formed.  TopologicalOrder with
  handleCycle = true returns a list in which \<open>b\<close> precedes \<open>a\<close> when depFirst = true,
  unless \<open>a\<close> lies on a dependency cycle and, inside the key set, a key on a cycle can be
  reached from \<open>b\<close>; and in which \<open>a\<close> precedes \<open>b\<close> when depFirst = false, unless \<open>b\<close>
  lies on a dependency cycle and, inside the key set, \<open>a\<close> can be reached from a key on a
  cycle.
\<close>

theorem TopologicalOrder_orders_dependencies_off_cycles:
  assumes "distinct (map fst deps)" and "Has keys a" and "Has keys b"
    and "Has (lookup deps a) b"
  shows "\<exists>out. TopologicalOrder keys deps depFirst True = Inr out \<and>
    (depFirst \<and> (\<not> DependsOn a a deps None \<or> \<not> reachesCycle keys deps b) \<longrightarrow>
       precedes b a out) \<and>
    (\<not> depFirst \<and> (\<not> DependsOn b b deps None \<or> \<not> reachedFromCycle keys deps a) \<longrightarrow>
       precedes a b out)"
proof -
  let ?K = "set keys"
  let ?r = "edges deps \<inter> ?K \<times> ?K"
  from loop_handleCycle [OF assms(1)] obtain out
    where out: "TopologicalOrder_loop keys (initRemainsDeps keys deps) deps depFirst True [] = Inr out"
    by blast
  from assms(2-4) have mem: "a \<in> set keys" "b \<in> set keys" and edge: "(a, b) \<in> edges deps"
    by (simp_all add: Has_def edges_def)
  have "precedes b a out" if df: "depFirst"
    and h: "\<not> DependsOn a a deps None \<or> \<not> reachesCycle keys deps b"
  proof -
    from df have G: "before_rel depFirst deps = edges deps" by (simp add: before_rel_def)
    from h have "(a, a) \<notin> (edges deps)\<^sup>+ \<or>
        (\<forall>c. (b, c) \<in> (before_rel depFirst deps \<inter> ?K \<times> ?K)\<^sup>* \<longrightarrow>
             (c, c) \<notin> (before_rel depFirst deps \<inter> ?K \<times> ?K)\<^sup>+)"
      unfolding G by (auto simp: DependsOn_iff reachesCycle_iff)
    moreover from edge G have "(a, b) \<in> before_rel depFirst deps" by simp
    ultimately show ?thesis
      using loop_order_strong [OF assms(1) out mem(2,1) subset_refl] by blast
  qed
  moreover have "precedes a b out" if df: "\<not> depFirst"
    and h: "\<not> DependsOn b b deps None \<or> \<not> reachedFromCycle keys deps a"
  proof -
    from df have G: "before_rel depFirst deps = (edges deps)\<inverse>" by (simp add: before_rel_def)
    have conv: "(edges deps)\<inverse> \<inter> ?K \<times> ?K = ?r\<inverse>" by auto
    from h have "(b, b) \<notin> (edges deps)\<^sup>+ \<or>
        (\<forall>c. (a, c) \<in> (before_rel depFirst deps \<inter> ?K \<times> ?K)\<^sup>* \<longrightarrow>
             (c, c) \<notin> (before_rel depFirst deps \<inter> ?K \<times> ?K)\<^sup>+)"
      unfolding G conv
      by (auto simp: DependsOn_iff reachedFromCycle_iff rtrancl_converse trancl_converse)
    moreover from edge G have "(b, a) \<in> before_rel depFirst deps" by simp
    ultimately show ?thesis
      using loop_order_strong [OF assms(1) out mem subset_refl] by blast
  qed
  ultimately show ?thesis using out by (auto simp: TopologicalOrder_def DeepCopy_def)
qed

theorem TopologicalOrder_orders_dependencies_off_cycles_witness:
  "distinct (map fst cycle_with_exit_deps) \<and> Has cycle_with_exit_keys ''a/3'' \<and>
   Has cycle_with_exit_keys ''a/4'' \<and> Has (lookup cycle_with_exit_deps ''a/3'') ''a/4'' \<and>
   DependsOn ''a/3'' ''a/3'' cycle_with_exit_deps None \<and>
   \<not> reachesCycle cycle_with_exit_keys cycle_with_exit_deps ''a/4'' \<and>
   TopologicalOrder cycle_with_exit_keys cycle_with_exit_deps True True =
     Inr [''a/4'', ''a/1'', ''a/3'', ''a/2''] \<and>
   precedes ''a/4'' ''a/3'' [''a/4'', ''a/1'', ''a/3'', ''a/2''] \<and>
   distinct (map fst two_components_deps) \<and> Has two_components_keys ''e'' \<and>
   Has two_components_keys ''a'' \<and> Has (lookup two_components_deps ''e'') ''a'' \<and>
   \<not> DependsOn ''e'' ''e'' two_components_deps None \<and>
   TopologicalOrder two_components_keys two_components_deps True True =
     Inr [''a'', ''b'', ''e'', ''c'', ''d''] \<and>
   precedes ''a'' ''e'' [''a'', ''b'', ''e'', ''c'', ''d''] \<and>
   DependsOn ''a'' ''a'' two_components_deps None \<and>
   \<not> reachedFromCycle two_components_keys two_components_deps ''e'' \<and>
   TopologicalOrder two_components_keys two_components_deps False True =
     Inr [''e'', ''a'', ''b'', ''c'', ''d''] \<and>
   precedes ''e'' ''a'' [''e'', ''a'', ''b'', ''c'', ''d'']"
proof -
  have s1: "distinct (map fst cycle_with_exit_deps)" by code_simp
  have s2: "Has cycle_with_exit_keys ''a/3''" by code_simp
  have s3: "Has cycle_with_exit_keys ''a/4''" by code_simp
  have s4: "Has (lookup cycle_with_exit_deps ''a/3'') ''a/4''" by code_simp
  have s5: "DependsOn ''a/3'' ''a/3'' cycle_with_exit_deps None" by code_simp
  have s6: "\<not> reachesCycle cycle_with_exit_keys cycle_with_exit_deps ''a/4''" by code_simp
  have s7: "TopologicalOrder cycle_with_exit_keys cycle_with_exit_deps True True =
     Inr [''a/4'', ''a/1'', ''a/3'', ''a/2'']" by code_simp
  have h1: "distinct (map fst two_components_deps)" by code_simp
  have h2: "Has two_components_keys ''e''" by code_simp
  have h3: "Has two_components_keys ''a''" by code_simp
  have h4: "Has (lookup two_components_deps ''e'') ''a''" by code_simp
  have h5: "\<not> DependsOn ''e'' ''e'' two_components_deps None" by code_simp
  have h6: "TopologicalOrder two_components_keys two_components_deps True True =
     Inr [''a'', ''b'', ''e'', ''c'', ''d'']" by code_simp
  have h7: "DependsOn ''a'' ''a'' two_components_deps None" by code_simp
  have h8: "\<not> reachedFromCycle two_components_keys two_components_deps ''e''" by code_simp
  have h9: "TopologicalOrder two_components_keys two_components_deps False True =
     Inr [''e'', ''a'', ''b'', ''c'', ''d'']" by code_simp
  from TopologicalOrder_orders_dependencies_off_cycles [OF s1 s2 s3 s4, of True] s6 s7
  have c1: "precedes ''a/4'' ''a/3'' [''a/4'', ''a/1'', ''a/3'', ''a/2'']" by simp
  from TopologicalOrder_orders_dependencies_off_cycles [OF h1 h2 h3 h4, of True] h5 h6
  have c2: "precedes ''a'' ''e'' [''a'', ''b'', ''e'', ''c'', ''d'']" by simp
  from TopologicalOrder_orders_dependencies_off_cycles [OF h1 h2 h3 h4, of False] h8 h9
  have c3: "precedes ''e'' ''a'' [''e'', ''a'', ''b'', ''c'', ''d'']" by simp
  from s1 s2 s3 s4 s5 s6 s7 h1 h2 h3 h4 h5 h6 h7 h8 h9 c1 c2 c3 show ?thesis by simp
qed

text \<open>
  Claim C1 as stated fails: with depFirst = true the key \<open>a\<close> is placed before \<open>c\<close>
  and before \<open>e\<close>, although \<open>a\<close> depends on \<open>c\<close>, \<open>e\<close> depends on \<open>a\<close>, and neither pair
  lies in one strongly-connected component.  So neither direction of the edges is
  respected across components.
\<close>

theorem TopologicalOrder_cross_component_counterexample:
  "TopologicalOrder two_components_keys two_components_deps True True =
     Inr [''a'', ''b'', ''e'', ''c'', ''d''] \<and>
   Has two_components_keys ''a'' \<and> Has two_components_keys ''c'' \<and>
   Has two_components_keys ''e'' \<and>
   Has (lookup two_components_deps ''a'') ''c'' \<and>
   \<not> sameSCC two_components_deps ''a'' ''c'' \<and>
   precedes ''a'' ''c'' [''a'', ''b'', ''e'', ''c'', ''d''] \<and>
   \<not> precedes ''c'' ''a'' [''a'', ''b'', ''e'', ''c'', ''d''] \<and>
   Has (lookup two_components_deps ''e'') ''a'' \<and>
   \<not> sameSCC two_components_deps ''e'' ''a'' \<and>
   precedes ''a'' ''e'' [''a'', ''b'', ''e'', ''c'', ''d''] \<and>
   \<not> precedes ''e'' ''a'' [''a'', ''b'', ''e'', ''c'', ''d'']"
  by code_simp

text \<open>
  Claim C3.  For every key set and every well-formed dependency map, cyclic or not,
  TopologicalOrder with handleCycle = true returns (no round panics, so the candidates
  of the cycle handling are never empty), and each input key occurs exactly once in
  the returned list.
\<close>

theorem TopologicalOrder_handleCycle_returns_every_key_once:
  assumes "distinct (map fst deps)"
  shows "\<exists>out. TopologicalOrder keys deps depFirst True = Inr out \<and>
    distinct out \<and> set out = set keys"
  using loop_handleCycle [OF assms, of keys depFirst]
  by (simp add: TopologicalOrder_def DeepCopy_def)

theorem TopologicalOrder_handleCycle_returns_every_key_once_witness:
  "distinct (map fst two_components_deps) \<and>
   (\<exists>out. TopologicalOrder two_components_keys two_components_deps False True = Inr out \<and>
     distinct out \<and> set out = set two_components_keys)"
proof -
  have h: "distinct (map fst two_components_deps)" by code_simp
  from TopologicalOrder_handleCycle_returns_every_key_once [OF h] h show ?thesis by simp
qed

text \<open>
  Claim C4.  In every round the key appended to the output is the smallest candidate
  in the lexicographic order of strings: the loop continues with that key next in the
  list it returns, and position \<open>i\<close> of the result of TopologicalOrder holds the smallest
  candidate of round \<open>i\<close>.  Therefore the result depends only on the key set, the
  dependency sets, depFirst and handleCycle: two representations of the same key set and
  of the same dependency map (any iteration order) give the same result.
\<close>

theorem smallest_candidate_selected_and_order_deterministic:
  assumes "distinct (map fst deps)" and "distinct (map fst deps')"
    and "set keys = set keys'"
    and "\<forall>k. set (lookup deps k) = set (lookup deps' k)"
  shows "TopologicalOrder keys deps depFirst handleCycle =
      TopologicalOrder keys' deps' depFirst handleCycle \<and>
    (\<forall>remains remainsDeps acc candidates key.
       findCandidates remains remainsDeps deps depFirst handleCycle = Inr candidates \<longrightarrow>
       selectFirst candidates = Inr key \<longrightarrow>
         Has candidates key \<and> (\<forall>c\<in>set candidates. key \<le> c) \<and>
         TopologicalOrder_loop remains remainsDeps deps depFirst handleCycle acc =
           (case TopologicalOrder_loop (Del remains key) (removeKey key remainsDeps) deps
                   depFirst handleCycle [] of
              Inl p \<Rightarrow> Inl p
            | Inr rest \<Rightarrow> Inr (acc @ key # rest))) \<and>
    (\<forall>out i. TopologicalOrder keys deps depFirst handleCycle = Inr out \<longrightarrow> i < length out \<longrightarrow>
       (\<exists>candidates.
          findCandidates (round_remains keys out i)
            (initRemainsDeps (round_remains keys out i) deps) deps depFirst handleCycle
            = Inr candidates \<and>
          Has candidates (out ! i) \<and> (\<forall>c\<in>set candidates. out ! i \<le> c)))"
proof (intro conjI allI impI)
  from assms(4) have "edges deps = edges deps'" by (intro edges_eqI) simp
  from loop_deterministic [OF assms(1,2) this assms(3)]
  show "TopologicalOrder keys deps depFirst handleCycle =
      TopologicalOrder keys' deps' depFirst handleCycle"
    by (simp add: TopologicalOrder_def DeepCopy_def)
next
  fix remains remainsDeps acc candidates key
  assume fc: "findCandidates remains remainsDeps deps depFirst handleCycle = Inr candidates"
    and sf: "selectFirst candidates = Inr key"
  from sf have ne: "candidates \<noteq> []" and key: "key = Min (set candidates)"
    by (simp_all add: selectFirst_Min split: if_splits)
  from ne key show "Has candidates key" by (simp add: Has_def)
  from key show "\<forall>c\<in>set candidates. key \<le> c" by simp
  show "TopologicalOrder_loop remains remainsDeps deps depFirst handleCycle acc =
      (case TopologicalOrder_loop (Del remains key) (removeKey key remainsDeps) deps
              depFirst handleCycle [] of
         Inl p \<Rightarrow> Inl p
       | Inr rest \<Rightarrow> Inr (acc @ key # rest))"
    by (rule loop_step [OF fc sf])
next
  fix out i
  assume "TopologicalOrder keys deps depFirst handleCycle = Inr out" and i: "i < length out"
  then have "TopologicalOrder_loop keys (initRemainsDeps keys deps) deps depFirst handleCycle []
      = Inr out"
    by (simp add: TopologicalOrder_def DeepCopy_def)
  from loop_rounds [OF this i]
  show "\<exists>candidates.
      findCandidates (round_remains keys out i)
        (initRemainsDeps (round_remains keys out i) deps) deps depFirst handleCycle
        = Inr candidates \<and>
      Has candidates (out ! i) \<and> (\<forall>c\<in>set candidates. out ! i \<le> c)" .
qed

theorem smallest_candidate_selected_and_order_deterministic_witness:
  "distinct (map fst [(''x'', [''z'', ''y'']), (''y'', [])]) \<and>
   distinct (map fst [(''x'', [''y'', ''z'', ''y''])]) \<and>
   set [''z'', ''y'', ''x''] = set [''x'', ''y'', ''z'', ''x''] \<and>
   (\<forall>k. set (lookup [(''x'', [''z'', ''y'']), (''y'', [])] k) =
        set (lookup [(''x'', [''y'', ''z'', ''y''])] k)) \<and>
   TopologicalOrder [''z'', ''y'', ''x''] [(''x'', [''z'', ''y'']), (''y'', [])] True False =
     Inr [''y'', ''z'', ''x''] \<and>
   TopologicalOrder [''x'', ''y'', ''z'', ''x''] [(''x'', [''y'', ''z'', ''y''])] True False =
     Inr [''y'', ''z'', ''x''] \<and>
   findCandidates [''z'', ''y'', ''x'']
     (initRemainsDeps [''z'', ''y'', ''x''] [(''x'', [''z'', ''y'']), (''y'', [])])
     [(''x'', [''z'', ''y'']), (''y'', [])] True False = Inr [''z'', ''y''] \<and>
   selectFirst [''z'', ''y''] = Inr ''y'' \<and> ''y'' \<le> ''z'' \<and>
   TopologicalOrder_loop [''z'', ''x'']
     (removeKey ''y'' (initRemainsDeps [''z'', ''y'', ''x''] [(''x'', [''z'', ''y'']), (''y'', [])]))
     [(''x'', [''z'', ''y'']), (''y'', [])] True False [] = Inr [''z'', ''x''] \<and>
   round_remains [''z'', ''y'', ''x''] [''y'', ''z'', ''x''] 1 = [''z'', ''x''] \<and>
   findCandidates [''z'', ''x'']
     (initRemainsDeps [''z'', ''x''] [(''x'', [''z'', ''y'']), (''y'', [])])
     [(''x'', [''z'', ''y'']), (''y'', [])] True False = Inr [''z'']"
proof -
  have h1: "distinct (map fst [(''x'', [''z'', ''y'']), (''y'', [])])" by simp
  have h2: "distinct (map fst [(''x'', [''y'', ''z'', ''y''])])" by simp
  have h3: "set [''z'', ''y'', ''x''] = set [''x'', ''y'', ''z'', ''x'']" by auto
  have h4: "\<forall>k. set (lookup [(''x'', [''z'', ''y'']), (''y'', [])] k) =
        set (lookup [(''x'', [''y'', ''z'', ''y''])] k)"
    by (auto simp: lookup_def)
  have h5: "findCandidates [''z'', ''y'', ''x'']
     (initRemainsDeps [''z'', ''y'', ''x''] [(''x'', [''z'', ''y'']), (''y'', [])])
     [(''x'', [''z'', ''y'']), (''y'', [])] True False = Inr [''z'', ''y'']" by code_simp
  have h6: "selectFirst [''z'', ''y''] = Inr ''y''" by code_simp
  have h7: "TopologicalOrder [''z'', ''y'', ''x''] [(''x'', [''z'', ''y'']), (''y'', [])] True False =
     Inr [''y'', ''z'', ''x'']" by code_simp
  have h8: "TopologicalOrder_loop [''z'', ''x'']
     (removeKey ''y'' (initRemainsDeps [''z'', ''y'', ''x''] [(''x'', [''z'', ''y'']), (''y'', [])]))
     [(''x'', [''z'', ''y'']), (''y'', [])] True False [] = Inr [''z'', ''x'']" by code_simp
  have h9: "round_remains [''z'', ''y'', ''x''] [''y'', ''z'', ''x''] 1 = [''z'', ''x'']"
    by code_simp
  have h10: "findCandidates [''z'', ''x'']
     (initRemainsDeps [''z'', ''x''] [(''x'', [''z'', ''y'']), (''y'', [])])
     [(''x'', [''z'', ''y'']), (''y'', [])] True False = Inr [''z'']" by code_simp
  note inst = smallest_candidate_selected_and_order_deterministic [OF h1 h2 h3 h4, of True False]
  from inst h7
  have eq: "TopologicalOrder [''x'', ''y'', ''z'', ''x''] [(''x'', [''y'', ''z'', ''y''])] True False =
      Inr [''y'', ''z'', ''x'']" by simp
  from inst have step: "\<And>remains remainsDeps acc candidates key.
       findCandidates remains remainsDeps [(''x'', [''z'', ''y'']), (''y'', [])] True False
         = Inr candidates \<Longrightarrow>
       selectFirst candidates = Inr key \<Longrightarrow> (\<forall>c\<in>set candidates. key \<le> c)"
    by blast
  from step [OF h5 h6] have "''y'' \<le> ''z''" by simp
  with h1 h2 h3 h4 h5 h6 h7 h8 h9 h10 eq show ?thesis by blast
qed

section \<open>The descriptor handler\<close>

text \<open>Modelled from the spec: the error values of package api that the handler refers to
  (their declarations are not part of the sources at hand): the three sentinel errors
  for an unimplemented callback, pairwise different, and any other error.  A Go
  \<^verbatim>\<open>error\<close> is an \<open>error option\<close>; \<open>None\<close> is \<^verbatim>\<open>nil\<close>.\<close>

datatype error =
  ErrUnimplementedAdd | ErrUnimplementedModify | ErrUnimplementedDelete | OtherError string

text \<open>Modelled from the spec: the callbacks of a \<^verbatim>\<open>KVDescriptor\<close> that the handler methods
  below use (the struct is declared in package api).  A callback that is \<^verbatim>\<open>nil\<close> is
  \<open>None\<close>.  Values and metadata are opaque and may be \<^verbatim>\<open>nil\<close>.  Add, Modify and Delete
  act on the southbound plane, whose state \<open>'s\<close> they take and return; the comparator
  and the failure classifier only compute an answer.\<close>

record ('v, 'm, 's) KVDescriptor =
  ValueComparator :: "(string \<Rightarrow> 'v option \<Rightarrow> 'v option \<Rightarrow> bool) option"
  Add :: "(string \<Rightarrow> 'v option \<Rightarrow> 's \<Rightarrow> ('m option \<times> error option) \<times> 's) option"
  Modify :: "(string \<Rightarrow> 'v option \<Rightarrow> 'v option \<Rightarrow> 'm option \<Rightarrow> 's \<Rightarrow>
      ('m option \<times> error option) \<times> 's) option"
  Delete :: "(string \<Rightarrow> 'v option \<Rightarrow> 'm option \<Rightarrow> 's \<Rightarrow> error option \<times> 's) option"
  RetriableFailure :: "(error option \<Rightarrow> bool) option"

record ('v, 'm, 's) descriptorHandler =
  descriptor :: "('v, 'm, 's) KVDescriptor option"

text \<open>Modelled from the spec: \<^verbatim>\<open>proto.Equal\<close> of the protobuf library, the structural
  equality of two messages (two \<^verbatim>\<open>nil\<close> messages are equal, a \<^verbatim>\<open>nil\<close> one differs from
  any other).\<close>

definition proto_Equal :: "'v option \<Rightarrow> 'v option \<Rightarrow> bool" where
  "proto_Equal v1 v2 = (v1 = v2)"

text \<open>Modelled from the spec: \<^verbatim>\<open>NonRetriableIfInTheList\<close> of package api, which returns
  the classifier that holds a failure to be retriable unless it is one of the listed
  errors.\<close>

definition NonRetriableIfInTheList :: "error list \<Rightarrow> error option \<Rightarrow> bool" where
  "NonRetriableIfInTheList nonRetriableErrs =
     (\<lambda>err. \<not> list_ex (\<lambda>nonRetriableErr. err = Some nonRetriableErr) nonRetriableErrs)"

definition equivalentValues ::
  "('v, 'm, 's) descriptorHandler \<Rightarrow> string \<Rightarrow> 'v option \<Rightarrow> 'v option \<Rightarrow> bool" where
  "equivalentValues h key v1 v2 =
     (case descriptor h of
        None \<Rightarrow> proto_Equal v1 v2
      | Some d \<Rightarrow>
          (case ValueComparator d of
             None \<Rightarrow> proto_Equal v1 v2
           | Some comparator \<Rightarrow> comparator key v1 v2))"

definition add ::
  "('v, 'm, 's) descriptorHandler \<Rightarrow> string \<Rightarrow> 'v option \<Rightarrow> 's \<Rightarrow>
     ('m option \<times> error option) \<times> 's" where
  "add h key val s =
     (case descriptor h of
        None \<Rightarrow> ((None, None), s)
      | Some d \<Rightarrow>
          (case Add d of
             None \<Rightarrow> ((None, Some ErrUnimplementedAdd), s)
           | Some callback \<Rightarrow> callback key val s))"

definition modify ::
  "('v, 'm, 's) descriptorHandler \<Rightarrow> string \<Rightarrow> 'v option \<Rightarrow> 'v option \<Rightarrow> 'm option \<Rightarrow> 's \<Rightarrow>
     ('m option \<times> error option) \<times> 's" where
  "modify h key oldValue newValue oldMetadata s =
     (case descriptor h of
        None \<Rightarrow> ((oldMetadata, None), s)
      | Some d \<Rightarrow>
          (case Modify d of
             None \<Rightarrow> ((oldMetadata, Some ErrUnimplementedModify), s)
           | Some callback \<Rightarrow> callback key oldValue newValue oldMetadata s))"

definition delete ::
  "('v, 'm, 's) descriptorHandler \<Rightarrow> string \<Rightarrow> 'v option \<Rightarrow> 'm option \<Rightarrow> 's \<Rightarrow>
     error option \<times> 's" where
  "delete h key val metadata s =
     (case descriptor h of
        None \<Rightarrow> (None, s)
      | Some d \<Rightarrow>
          (case Delete d of
             None \<Rightarrow> (Some ErrUnimplementedDelete, s)
           | Some callback \<Rightarrow> callback key val metadata s))"

definition retriableFailure :: "('v, 'm, 's) descriptorHandler \<Rightarrow> error option \<Rightarrow> bool" where
  "retriableFailure h err =
     (let handlerErrs = [ErrUnimplementedAdd, ErrUnimplementedModify, ErrUnimplementedDelete];
          retriable = NonRetriableIfInTheList handlerErrs
      in if \<not> retriable err then False
         else (case descriptor h of
                 None \<Rightarrow> True
               | Some d \<Rightarrow>
                   (case RetriableFailure d of
                      None \<Rightarrow> True
                    | Some callback \<Rightarrow> callback err)))"

text \<open>Two descriptors for concrete instances: one without any callback, one that
  only classifies failures (every failure as retriable).\<close>

definition no_callbacks :: "(string, nat, nat) KVDescriptor" where
  "no_callbacks = \<lparr>ValueComparator = None, Add = None, Modify = None, Delete = None,
     RetriableFailure = None\<rparr>"

definition always_retriable :: "(string, nat, nat) KVDescriptor" where
  "always_retriable = \<lparr>ValueComparator = None, Add = None, Modify = None, Delete = None,
     RetriableFailure = Some (\<lambda>err. True)\<rparr>"

text \<open>
  Claim C7.  retriableFailure returns false for each of the three errors
  ErrUnimplementedAdd, ErrUnimplementedModify and ErrUnimplementedDelete, whatever the
  descriptor defines; for every other error (also \<^verbatim>\<open>nil\<close>) it returns true when the
  handler has no descriptor or the descriptor leaves RetriableFailure undefined.
\<close>

theorem retriableFailure_unimplemented_and_default:
  "(err \<in> {ErrUnimplementedAdd, ErrUnimplementedModify, ErrUnimplementedDelete} \<longrightarrow>
      retriableFailure h (Some err) = False) \<and>
   (e \<notin> {Some ErrUnimplementedAdd, Some ErrUnimplementedModify, Some ErrUnimplementedDelete} \<longrightarrow>
      (case descriptor h of None \<Rightarrow> True | Some d \<Rightarrow> RetriableFailure d = None) \<longrightarrow>
      retriableFailure h e = True)"
  by (auto simp: retriableFailure_def NonRetriableIfInTheList_def split: option.splits)

theorem retriableFailure_unimplemented_and_default_witness:
  "ErrUnimplementedModify \<in> {ErrUnimplementedAdd, ErrUnimplementedModify, ErrUnimplementedDelete} \<and>
   retriableFailure \<lparr>descriptor = Some always_retriable\<rparr> (Some ErrUnimplementedModify) = False \<and>
   Some (OtherError ''timeout'') \<notin>
     {Some ErrUnimplementedAdd, Some ErrUnimplementedModify, Some ErrUnimplementedDelete} \<and>
   (case descriptor \<lparr>descriptor = Some no_callbacks\<rparr> of
      None \<Rightarrow> True | Some d \<Rightarrow> RetriableFailure d = None) \<and>
   retriableFailure \<lparr>descriptor = Some no_callbacks\<rparr> (Some (OtherError ''timeout'')) = True"
  using retriableFailure_unimplemented_and_default
    [of ErrUnimplementedModify "\<lparr>descriptor = Some always_retriable\<rparr>" None]
    retriableFailure_unimplemented_and_default
    [of ErrUnimplementedAdd "\<lparr>descriptor = Some no_callbacks\<rparr>" "Some (OtherError ''timeout'')"]
  by (simp add: no_callbacks_def)

text \<open>
  Claim C8.  When the descriptor has no Add (Modify, Delete) callback, the handler's
  add (modify, delete) returns ErrUnimplementedAdd (ErrUnimplementedModify,
  ErrUnimplementedDelete) and leaves the southbound state as it was, whatever the other
  callbacks are: no callback has run.  add returns no metadata, modify returns the old
  metadata.
\<close>

theorem unimplemented_operations_report_error:
  "(Add d = None \<longrightarrow>
      add \<lparr>descriptor = Some d\<rparr> key val s = ((None, Some ErrUnimplementedAdd), s)) \<and>
   (Modify d = None \<longrightarrow>
      modify \<lparr>descriptor = Some d\<rparr> key oldValue newValue oldMetadata s =
        ((oldMetadata, Some ErrUnimplementedModify), s)) \<and>
   (Delete d = None \<longrightarrow>
      delete \<lparr>descriptor = Some d\<rparr> key val metadata s = (Some ErrUnimplementedDelete, s))"
  by (simp add: add_def modify_def delete_def)

theorem unimplemented_operations_report_error_witness:
  "Add always_retriable = None \<and> Modify always_retriable = None \<and>
   Delete always_retriable = None \<and>
   add \<lparr>descriptor = Some always_retriable\<rparr> ''k'' (Some ''v'') 0 =
     ((None, Some ErrUnimplementedAdd), 0) \<and>
   modify \<lparr>descriptor = Some always_retriable\<rparr> ''k'' (Some ''v'') (Some ''w'') (Some 7) 0 =
     ((Some 7, Some ErrUnimplementedModify), 0) \<and>
   delete \<lparr>descriptor = Some always_retriable\<rparr> ''k'' (Some ''v'') (Some 7) 0 =
     (Some ErrUnimplementedDelete, 0)"
  using unimplemented_operations_report_error
    [of always_retriable "''k''" "Some ''v''" 0 "Some ''v''" "Some ''w''" "Some 7" "Some 7"]
  by (simp add: always_retriable_def)

text \<open>
  Claim C9.  When the descriptor defines no ValueComparator, equivalentValues returns
  \<^verbatim>\<open>proto.Equal(v1, v2)\<close>, the structural equality of the two messages, for every key.
\<close>

theorem equivalentValues_default_is_proto_Equal:
  "ValueComparator d = None \<Longrightarrow>
     equivalentValues \<lparr>descriptor = Some d\<rparr> key v1 v2 = proto_Equal v1 v2 \<and>
     equivalentValues \<lparr>descriptor = Some d\<rparr> key v1 v2 = (v1 = v2)"
  by (simp add: equivalentValues_def proto_Equal_def)

theorem equivalentValues_default_is_proto_Equal_witness:
  "ValueComparator no_callbacks = None \<and>
   equivalentValues \<lparr>descriptor = Some no_callbacks\<rparr> ''k'' (Some ''x'') (Some ''y'') =
     proto_Equal (Some ''x'') (Some ''y'') \<and>
   \<not> equivalentValues \<lparr>descriptor = Some no_callbacks\<rparr> ''k'' (Some ''x'') (Some ''y'') \<and>
   equivalentValues \<lparr>descriptor = Some no_callbacks\<rparr> ''k'' (Some ''x'') (Some ''x'')"
proof -
  have h: "ValueComparator no_callbacks = None" by (simp add: no_callbacks_def)
  from equivalentValues_default_is_proto_Equal [OF h, of "''k''" "Some ''x''" "Some ''y''"]
    equivalentValues_default_is_proto_Equal [OF h, of "''k''" "Some ''x''" "Some ''x''"] h
  show ?thesis by (simp add: proto_Equal_def)
qed

section \<open>The graph and the readiness of a node\<close>

datatype ValueOrigin = UnknownOrigin | FromNB | FromSB

datatype relation = DependencyRelation | DerivesRelation

text \<open>Modelled from the spec: the graph of package graph and the flags of the scheduler,
  neither of which is part of the sources at hand.  The graph stores one record per key;
  a flag is absent (\<open>None\<close>) or carries its payload; the edges of a relation are stored
  with the source node, by label, as keys of the targets, and the nodes from which a
  relation points to the node as keys of the sources.  A \<^verbatim>\<open>graph.Node\<close> is a handle on
  the record of a key: the key itself, read through the graph.\<close>

record 'v node_record =
  OriginFlag :: "ValueOrigin option"
  DerivedFlag :: "string option"
  PendingFlag :: "unit option"
  LastChangeFlag :: "'v option option"
  edgeTargets :: "relation \<Rightarrow> (string \<times> string list) list"
  edgeSources :: "relation \<Rightarrow> string list"

type_synonym 'v graph = "(string \<times> 'v node_record) list"
type_synonym Node = string
type_synonym keySet = "string list"

definition GetKey :: "Node \<Rightarrow> string" where
  "GetKey node = node"

definition hasNode :: "'v graph \<Rightarrow> string \<Rightarrow> bool" where
  "hasNode g key = (map_of g key \<noteq> None)"

text \<open>The targets and sources that a node handle returns are the nodes that exist.\<close>

definition GetTargets :: "'v graph \<Rightarrow> Node \<Rightarrow> relation \<Rightarrow> (string \<times> Node list) list" where
  "GetTargets g node rel =
     (case map_of g node of
        None \<Rightarrow> []
      | Some r \<Rightarrow> map (\<lambda>(label, keys). (label, filter (hasNode g) keys)) (edgeTargets r rel))"

definition GetSources :: "'v graph \<Rightarrow> Node \<Rightarrow> relation \<Rightarrow> Node list" where
  "GetSources g node rel =
     (case map_of g node of None \<Rightarrow> [] | Some r \<Rightarrow> filter (hasNode g) (edgeSources r rel))"

definition getNodeOrigin :: "'v graph \<Rightarrow> Node \<Rightarrow> ValueOrigin" where
  "getNodeOrigin g node =
     (case map_of g node of
        None \<Rightarrow> UnknownOrigin
      | Some r \<Rightarrow> (case OriginFlag r of Some origin \<Rightarrow> origin | None \<Rightarrow> UnknownOrigin))"

definition getNodeLastChange :: "'v graph \<Rightarrow> Node \<Rightarrow> 'v option option" where
  "getNodeLastChange g node = (case map_of g node of None \<Rightarrow> None | Some r \<Rightarrow> LastChangeFlag r)"

definition isNodeDerived :: "'v graph \<Rightarrow> Node \<Rightarrow> bool" where
  "isNodeDerived g node = (case map_of g node of None \<Rightarrow> False | Some r \<Rightarrow> DerivedFlag r \<noteq> None)"

definition isNodePending :: "'v graph \<Rightarrow> Node \<Rightarrow> bool" where
  "isNodePending g node = (case map_of g node of None \<Rightarrow> False | Some r \<Rightarrow> PendingFlag r \<noteq> None)"

text \<open>The \<^verbatim>\<open>for\<close> loop of isNodeBeingRemoved walks from a derived node to the node it
  derives from, as long as there is one.  It returns either from inside (a pending node
  was met: \<open>True\<close>) or by \<^verbatim>\<open>break\<close>, with the base it has reached.  On a cycle of the
  Derives relation without a pending node it does not return: the value is \<open>None\<close>.\<close>

partial_function (option) isNodeBeingRemoved_loop :: "'v graph \<Rightarrow> Node \<Rightarrow> (bool \<times> Node) option" where
  "isNodeBeingRemoved_loop g base =
     (case GetSources g base DerivesRelation of
        [] \<Rightarrow> Some (False, base)
      | derivedFrom0 # _ \<Rightarrow>
          if isNodePending g derivedFrom0 then Some (True, derivedFrom0)
          else isNodeBeingRemoved_loop g derivedFrom0)"

definition aboutToBeRemoved :: "'v graph \<Rightarrow> Node \<Rightarrow> bool" where
  "aboutToBeRemoved g base =
     (case getNodeLastChange g base of None \<Rightarrow> False | Some val \<Rightarrow> val = None)"

definition isNodeBeingRemoved :: "'v graph \<Rightarrow> Node \<Rightarrow> bool option" where
  "isNodeBeingRemoved g node =
     (if isNodeDerived g node then
        (case isNodeBeingRemoved_loop g node of
           None \<Rightarrow> None
         | Some (True, base) \<Rightarrow> Some True
         | Some (False, base) \<Rightarrow>
             if isNodeDerived g base then Some True else Some (aboutToBeRemoved g base))
      else Some (aboutToBeRemoved g node))"

definition keySet_add :: "keySet \<Rightarrow> string \<Rightarrow> keySet" where
  "keySet_add ks key = List.insert key ks"

text \<open>
  isNodeReadyRec, with the set \<^verbatim>\<open>visited\<close> passed along: the function adds the key of
  the current node on entry and the deferred \<^verbatim>\<open>delete\<close> removes it when the function
  returns.  \<open>isNodeReadyRec_relations\<close> is the loop over the labelled dependencies of
  the current node and carries \<^verbatim>\<open>cycle\<close>; \<open>isNodeReadyRec_targets\<close> is the loop over the
  targets of one dependency and carries \<^verbatim>\<open>satisfied\<close> and \<^verbatim>\<open>cycle\<close>.  The result is
  \<open>None\<close> when a call of isNodeBeingRemoved does not return.
\<close>

function isNodeReadyRec ::
    "'v graph \<Rightarrow> Node \<Rightarrow> Node \<Rightarrow> keySet \<Rightarrow> (bool \<times> keySet) option"
  and isNodeReadyRec_relations ::
    "'v graph \<Rightarrow> Node \<Rightarrow> Node \<Rightarrow> (string \<times> Node list) list \<Rightarrow> bool \<Rightarrow> keySet \<Rightarrow>
       (bool \<times> keySet) option"
  and isNodeReadyRec_targets ::
    "'v graph \<Rightarrow> Node \<Rightarrow> Node \<Rightarrow> Node list \<Rightarrow> bool \<Rightarrow> bool \<Rightarrow> keySet \<Rightarrow>
       ((bool \<times> bool) \<times> keySet) option"
where
  "isNodeReadyRec g src current visited =
     (case isNodeReadyRec_relations g src current (GetTargets g current DependencyRelation)
             False (keySet_add visited (GetKey current)) of
        None \<Rightarrow> None
      | Some (ready, visited') \<Rightarrow> Some (ready, removeAll (GetKey current) visited'))"
| "isNodeReadyRec_relations g src current [] cycle visited =
     Some (GetKey current = GetKey src \<or> cycle, visited)"
| "isNodeReadyRec_relations g src current ((label, targets) # rest) cycle visited =
     (case isNodeReadyRec_targets g src current targets False cycle visited of
        None \<Rightarrow> None
      | Some ((satisfied, cycle'), visited') \<Rightarrow>
          if \<not> satisfied then Some (False, visited')
          else isNodeReadyRec_relations g src current rest cycle' visited')"
| "isNodeReadyRec_targets g src current [] satisfied cycle visited =
     Some ((satisfied, cycle), visited)"
| "isNodeReadyRec_targets g src current (target # rest) satisfied cycle visited =
     (case isNodeBeingRemoved g target of
        None \<Rightarrow> None
      | Some True \<Rightarrow> isNodeReadyRec_targets g src current rest satisfied cycle visited
      | Some False \<Rightarrow>
          if \<not> isNodePending g target \<and> GetKey current = GetKey src
          then Some ((True, cycle), visited)
          else if GetKey target = GetKey src then Some ((True, True), visited)
          else if GetKey target \<in> set visited
          then isNodeReadyRec_targets g src current rest
                 (satisfied \<or> \<not> isNodePending g target) cycle visited
          else (case isNodeReadyRec g src target visited of
                  None \<Rightarrow> None
                | Some (True, visited') \<Rightarrow> Some ((True, True), visited')
                | Some (False, visited') \<Rightarrow>
                    isNodeReadyRec_targets g src current rest
                      (satisfied \<or> \<not> isNodePending g target) cycle visited'))"
  by pat_completeness auto


lemma isNodeReadyRec_visited_dom:
  "isNodeReadyRec_isNodeReadyRec_relations_isNodeReadyRec_targets_dom (Inl (g, src, current, visited)) \<Longrightarrow>
     isNodeReadyRec g src current visited = Some (ready, visited') \<Longrightarrow>
     set visited' = set visited - {GetKey current}"
  "isNodeReadyRec_isNodeReadyRec_relations_isNodeReadyRec_targets_dom
       (Inr (Inl (g, src, current, rels, cycle, visited))) \<Longrightarrow>
     isNodeReadyRec_relations g src current rels cycle visited = Some (ready, visited') \<Longrightarrow>
     set visited' = set visited"
  "isNodeReadyRec_isNodeReadyRec_relations_isNodeReadyRec_targets_dom
       (Inr (Inr (g, src, current, ts, satisfied, cycle, visited))) \<Longrightarrow>
     isNodeReadyRec_targets g src current ts satisfied cycle visited = Some (res, visited') \<Longrightarrow>
     set visited' = set visited"
proof (induct arbitrary: ready visited' and ready visited' and res visited'
    rule: isNodeReadyRec_isNodeReadyRec_relations_isNodeReadyRec_targets.pinduct)
  case (1 g src current visited)
  from 1(3) obtain v where
    r: "isNodeReadyRec_relations g src current (GetTargets g current DependencyRelation)
          False (keySet_add visited (GetKey current)) = Some (ready, v)"
    and v: "visited' = removeAll (GetKey current) v"
    by (auto simp: isNodeReadyRec.psimps [OF 1(1)] split: option.splits)
  from 1(2) [OF r] v show ?case by (auto simp: keySet_add_def)
next
  case (2 g src current cycle visited)
  then show ?case by (simp add: isNodeReadyRec_relations.psimps)
next
  case (3 g src current label targets rest cycle visited)
  from 3(4) obtain satisfied cycle' v where
    t: "isNodeReadyRec_targets g src current targets False cycle visited = Some ((satisfied, cycle'), v)"
    by (auto simp: isNodeReadyRec_relations.psimps(2) [OF 3(1)] split: option.splits)
  from 3(2) [OF t] have v: "set v = set visited" .
  show ?case
  proof (cases satisfied)
    case True
    with 3(4) t have "isNodeReadyRec_relations g src current rest cycle' v = Some (ready, visited')"
      by (simp add: isNodeReadyRec_relations.psimps(2) [OF 3(1)])
    from 3(3) [OF t refl refl _ this] True v show ?thesis by simp
  next
    case False
    with 3(4) t v show ?thesis by (simp add: isNodeReadyRec_relations.psimps(2) [OF 3(1)])
  qed
next
  case (4 g src current satisfied cycle visited)
  then show ?case by (simp add: isNodeReadyRec_targets.psimps)
next
  case (5 g src current target rest satisfied cycle visited)
  note ps = isNodeReadyRec_targets.psimps(2) [OF 5(1)]
  show ?case
  proof (cases "isNodeBeingRemoved g target")
    case None
    with 5(6) show ?thesis by (auto simp: ps)
  next
    case (Some removed)
    show ?thesis
    proof (cases removed)
      case True
      with Some have rmT: "isNodeBeingRemoved g target = Some True" by simp
      with 5(6) have "isNodeReadyRec_targets g src current rest satisfied cycle visited
          = Some (res, visited')" by (auto simp: ps)
      from 5(2) [OF rmT refl this] show ?thesis .
    next
      case False
      with Some have rm: "isNodeBeingRemoved g target = Some False" by simp
      show ?thesis
      proof (cases "\<not> isNodePending g target \<and> GetKey current = GetKey src")
        case True
        with rm 5(6) show ?thesis by (auto simp: ps)
      next
        case c1: False
        show ?thesis
        proof (cases "GetKey target = GetKey src")
          case True
          with rm c1 5(6) show ?thesis by (auto simp: ps)
        next
          case c2: False
          show ?thesis
          proof (cases "GetKey target \<in> set visited")
            case True
            with rm c1 c2 5(6)
            have "isNodeReadyRec_targets g src current rest
                (satisfied \<or> \<not> isNodePending g target) cycle visited = Some (res, visited')"
              by (auto simp: ps)
            from 5(3) [OF rm refl c1 c2 True this] show ?thesis .
          next
            case c3: False
            from rm c1 c2 c3
            have unf: "isNodeReadyRec_targets g src current (target # rest) satisfied cycle visited =
                (case isNodeReadyRec g src target visited of
                   None \<Rightarrow> None
                 | Some (True, visited') \<Rightarrow> Some ((True, True), visited')
                 | Some (False, visited') \<Rightarrow>
                     isNodeReadyRec_targets g src current rest
                       (satisfied \<or> \<not> isNodePending g target) cycle visited')"
              by (auto simp: ps)
            from 5(6) unf obtain b v where
              r: "isNodeReadyRec g src target visited = Some (b, v)"
              by (cases "isNodeReadyRec g src target visited") auto
            from 5(4) [OF rm refl c1 c2 c3 r] c3 have v: "set v = set visited" by auto
            show ?thesis
            proof (cases b)
              case True
              with 5(6) unf r have "visited' = v" by simp
              with v show ?thesis by simp
            next
              case False
              with 5(6) unf r
              have "isNodeReadyRec_targets g src current rest
                  (satisfied \<or> \<not> isNodePending g target) cycle v = Some (res, visited')"
                by simp
              from 5(5) [OF rm refl c1 c2 c3 r refl _ this] False v
              show ?thesis by simp
            qed
          qed
        qed
      qed
    qed
  qed
qed


lemma GetTargets_no_node: "key \<notin> fst ` set g \<Longrightarrow> GetTargets g key rel = []"
  by (simp add: GetTargets_def map_of_eq_None_iff [THEN iffD2])

termination isNodeReadyRec
proof (relation "inv_image (less_than <*lex*> less_than)
    (\<lambda>x. case x of
       Inl (g, src, current, visited) \<Rightarrow>
         (card (fst ` set g - set visited - {GetKey current}),
          Suc (sum_list (map (\<lambda>(label, targets). 2 * length targets + 1)
                 (GetTargets g current DependencyRelation))))
     | Inr (Inl (g, src, current, rels, cycle, visited)) \<Rightarrow>
         (card (fst ` set g - set visited),
          sum_list (map (\<lambda>(label, targets). 2 * length targets + 1) rels))
     | Inr (Inr (g, src, current, targets, satisfied, cycle, visited)) \<Rightarrow>
         (card (fst ` set g - set visited), 2 * length targets))", goal_cases)
  case 1
  show ?case by (intro wf_inv_image wf_lex_prod wf_less_than)
next
  case (2 g src current visited)
  have "fst ` set g - set (keySet_add visited (GetKey current)) =
      fst ` set g - set visited - {GetKey current}"
    by (auto simp: keySet_add_def)
  then show ?case by simp
next
  case (3 g src current label targets rest cycle visited)
  show ?case by simp
next
  case (4 g src current label targets rest cycle visited x2 x y xa ya)
  then have "set y = set visited"
    using isNodeReadyRec_visited_dom(3) by metis
  then show ?case by simp
next
  case (5 g src current target rest satisfied cycle visited x2)
  show ?case by simp
next
  case (6 g src current target rest satisfied cycle visited x2)
  show ?case by simp
next
  case (7 g src current target rest satisfied cycle visited x2)
  show ?case
  proof (cases "GetKey target \<in> fst ` set g")
    case True
    with 7 have "card (fst ` set g - set visited - {GetKey target}) < card (fst ` set g - set visited)"
      by (intro psubset_card_mono) auto
    then show ?thesis by simp
  next
    case False
    then have "fst ` set g - set visited - {GetKey target} = fst ` set g - set visited" by auto
    moreover from False have "GetTargets g target DependencyRelation = []"
      by (intro GetTargets_no_node) (simp add: GetKey_def)
    ultimately show ?thesis by simp
  qed
next
  case (8 g src current target rest satisfied cycle visited x2 x2a x y)
  then have "set y = set visited - {GetKey target}"
    using isNodeReadyRec_visited_dom(1) by metis
  with 8 have "set y = set visited" by auto
  then show ?case by simp
qed

definition isNodeReady :: "'v graph \<Rightarrow> Node \<Rightarrow> bool option" where
  "isNodeReady g node =
     (if getNodeOrigin g node = FromSB then Some True
      else map_option fst (isNodeReadyRec g node node []))"



declare isNodeReadyRec.simps [simp del] isNodeReadyRec_relations.simps [simp del]
  isNodeReadyRec_targets.simps [simp del]

lemma targets_removed:
  "isNodeBeingRemoved g target = Some True \<Longrightarrow>
     isNodeReadyRec_targets g src current (target # rest) satisfied cycle visited =
     isNodeReadyRec_targets g src current rest satisfied cycle visited"
  by (simp add: isNodeReadyRec_targets.simps)

lemma targets_diverges:
  "isNodeBeingRemoved g target = None \<Longrightarrow>
     isNodeReadyRec_targets g src current (target # rest) satisfied cycle visited = None"
  by (simp add: isNodeReadyRec_targets.simps)

lemma targets_break:
  "isNodeBeingRemoved g target = Some False \<Longrightarrow> \<not> isNodePending g target \<Longrightarrow>
   current = src \<Longrightarrow>
     isNodeReadyRec_targets g src current (target # rest) satisfied cycle visited =
     Some ((True, cycle), visited)"
  by (simp add: isNodeReadyRec_targets.simps)

lemma targets_src:
  "isNodeBeingRemoved g target = Some False \<Longrightarrow> isNodePending g target \<or> current \<noteq> src \<Longrightarrow>
   target = src \<Longrightarrow>
     isNodeReadyRec_targets g src current (target # rest) satisfied cycle visited =
     Some ((True, True), visited)"
  by (auto simp: isNodeReadyRec_targets.simps GetKey_def)

lemma targets_visited:
  "isNodeBeingRemoved g target = Some False \<Longrightarrow> isNodePending g target \<or> current \<noteq> src \<Longrightarrow>
   target \<noteq> src \<Longrightarrow> target \<in> set visited \<Longrightarrow>
     isNodeReadyRec_targets g src current (target # rest) satisfied cycle visited =
     isNodeReadyRec_targets g src current rest (satisfied \<or> \<not> isNodePending g target) cycle visited"
  by (auto simp: isNodeReadyRec_targets.simps GetKey_def)

lemma targets_rec:
  "isNodeBeingRemoved g target = Some False \<Longrightarrow> isNodePending g target \<or> current \<noteq> src \<Longrightarrow>
   target \<noteq> src \<Longrightarrow> target \<notin> set visited \<Longrightarrow>
     isNodeReadyRec_targets g src current (target # rest) satisfied cycle visited =
     (case isNodeReadyRec g src target visited of
        None \<Rightarrow> None
      | Some (True, visited') \<Rightarrow> Some ((True, True), visited')
      | Some (False, visited') \<Rightarrow>
          isNodeReadyRec_targets g src current rest
            (satisfied \<or> \<not> isNodePending g target) cycle visited')"
  by (auto simp: isNodeReadyRec_targets.simps GetKey_def)



text \<open>isNodeBeingRemoved returns for every node of the graph.\<close>

definition removal_decided :: "'v graph \<Rightarrow> bool" where
  "removal_decided g = (\<forall>node. isNodeBeingRemoved g node \<noteq> None)"

lemma isNodeReadyRec_returns:
  assumes "removal_decided g"
  shows "isNodeReadyRec g src current visited \<noteq> None"
    and "isNodeReadyRec_relations g src current rels cycle visited \<noteq> None"
    and "isNodeReadyRec_targets g src current ts satisfied cycle visited \<noteq> None"
  using assms
proof (induct g src current visited and g src current rels cycle visited
    and g src current ts satisfied cycle visited
    rule: isNodeReadyRec_isNodeReadyRec_relations_isNodeReadyRec_targets.induct)
  case (1 g src current visited)
  then show ?case by (auto simp: isNodeReadyRec.simps split: option.splits)
next
  case (2 g src current cycle visited)
  then show ?case by (simp add: isNodeReadyRec_relations.simps)
next
  case (3 g src current label targets rest cycle visited)
  from 3(1) [OF 3(3)] obtain satisfied cycle' v where
    t: "isNodeReadyRec_targets g src current targets False cycle visited = Some ((satisfied, cycle'), v)"
    by auto
  show ?case
  proof (cases satisfied)
    case True
    then have "\<not> \<not> satisfied" by simp
    from 3(2) [OF t refl refl this 3(3)] t True show ?thesis
      by (simp add: isNodeReadyRec_relations.simps)
  next
    case False
    with t show ?thesis by (simp add: isNodeReadyRec_relations.simps)
  qed
next
  case (4 g src current satisfied cycle visited)
  then show ?case by (simp add: isNodeReadyRec_targets.simps)
next
  case (5 g src current target rest satisfied cycle visited)
  from 5(5) obtain removed where Some: "isNodeBeingRemoved g target = Some removed"
    by (auto simp: removal_decided_def)
  show ?case
  proof (cases removed)
    case True
    with Some have rm: "isNodeBeingRemoved g target = Some True" by simp
    from 5(1) [OF rm refl 5(5)] rm show ?thesis by (simp add: targets_removed)
  next
    case False
    with Some have rm: "isNodeBeingRemoved g target = Some False" by simp
    show ?thesis
    proof (cases "\<not> isNodePending g target \<and> GetKey current = GetKey src")
      case True
      with rm show ?thesis by (simp add: targets_break GetKey_def)
    next
      case c1: False
      then have c1': "isNodePending g target \<or> current \<noteq> src" by (auto simp: GetKey_def)
      show ?thesis
      proof (cases "GetKey target = GetKey src")
        case True
        with rm c1' show ?thesis by (simp add: targets_src GetKey_def)
      next
        case c2: False
        then have c2': "target \<noteq> src" by (simp add: GetKey_def)
        show ?thesis
        proof (cases "GetKey target \<in> set visited")
          case True
          from 5(2) [OF rm refl c1 c2 True 5(5)] rm c1' c2' True
          show ?thesis by (simp add: targets_visited GetKey_def)
        next
          case c3: False
          then have c3': "target \<notin> set visited" by (simp add: GetKey_def)
          note unf = targets_rec [OF rm c1' c2' c3', of rest satisfied cycle]
          from 5(3) [OF rm refl c1 c2 c3 5(5)] obtain b v where
            r: "isNodeReadyRec g src target visited = Some (b, v)" by auto
          show ?thesis
          proof (cases b)
            case True
            with r unf show ?thesis by simp
          next
            case False
            with r have r': "isNodeReadyRec g src target visited = Some (False, v)" by simp
            from 5(4) [OF rm refl c1 c2 c3 r' refl _ 5(5)] r' unf show ?thesis by simp
          qed
        qed
      qed
    qed
  qed
qed

text \<open>At the source node itself, a target that is not being removed and is not pending,
  or is the source node, satisfies the dependency.\<close>

lemma targets_at_src_satisfied:
  assumes "removal_decided g"
  shows "\<exists>t\<in>set ts. isNodeBeingRemoved g t = Some False \<and> (\<not> isNodePending g t \<or> t = src) \<Longrightarrow>
    \<exists>c v. isNodeReadyRec_targets g src src ts satisfied cycle visited = Some ((True, c), v)"
proof (induct ts arbitrary: satisfied cycle visited)
  case Nil
  then show ?case by simp
next
  case (Cons target rest)
  from assms obtain removed where Some: "isNodeBeingRemoved g target = Some removed"
    by (auto simp: removal_decided_def)
  show ?case
  proof (cases removed)
    case True
    with Some have rm: "isNodeBeingRemoved g target = Some True" by simp
    with Cons(2) have "\<exists>t\<in>set rest. isNodeBeingRemoved g t = Some False \<and>
        (\<not> isNodePending g t \<or> t = src)" by auto
    from Cons(1) [OF this] rm show ?thesis by (simp add: targets_removed)
  next
    case False
    with Some have rm: "isNodeBeingRemoved g target = Some False" by simp
    show ?thesis
    proof (cases "isNodePending g target")
      case False
      with rm show ?thesis by (simp add: targets_break)
    next
      case pending: True
      show ?thesis
      proof (cases "target = src")
        case True
        with rm pending show ?thesis by (simp add: targets_src exI [of _ True])
      next
        case ns: False
        with pending Cons(2) have ex: "\<exists>t\<in>set rest. isNodeBeingRemoved g t = Some False \<and>
            (\<not> isNodePending g t \<or> t = src)" by auto
        show ?thesis
        proof (cases "target \<in> set visited")
          case True
          from Cons(1) [OF ex] rm pending ns True show ?thesis by (simp add: targets_visited)
        next
          case nv: False
          from pending have c1': "isNodePending g target \<or> src \<noteq> src" by simp
          note unf = targets_rec [OF rm c1' ns nv, of rest satisfied cycle]
          from isNodeReadyRec_returns(1) [OF assms] obtain b v where
            r: "isNodeReadyRec g src target visited = Some (b, v)" by fastforce
          show ?thesis
          proof (cases b)
            case True
            with r unf show ?thesis by (simp add: exI [of _ True])
          next
            case False
            with r unf Cons(1) [OF ex, of "satisfied \<or> \<not> isNodePending g target" cycle v]
            show ?thesis by simp
          qed
        qed
      qed
    qed
  qed
qed

lemma relations_at_src_satisfied:
  assumes "removal_decided g"
  shows "\<forall>(label, targets)\<in>set rels. \<exists>t\<in>set targets.
      isNodeBeingRemoved g t = Some False \<and> (\<not> isNodePending g t \<or> t = src) \<Longrightarrow>
    \<exists>v. isNodeReadyRec_relations g src src rels cycle visited = Some (True, v)"
proof (induct rels arbitrary: cycle visited)
  case Nil
  show ?case by (simp add: isNodeReadyRec_relations.simps)
next
  case (Cons rel rest)
  obtain label targets where rel: "rel = (label, targets)" by (cases rel)
  with Cons(2) have "\<exists>t\<in>set targets. isNodeBeingRemoved g t = Some False \<and>
      (\<not> isNodePending g t \<or> t = src)" by auto
  from targets_at_src_satisfied [OF assms this] obtain c v where
    t: "isNodeReadyRec_targets g src src targets False cycle visited = Some ((True, c), v)"
    by blast
  from Cons(2) have "\<forall>(label, targets)\<in>set rest. \<exists>t\<in>set targets.
      isNodeBeingRemoved g t = Some False \<and> (\<not> isNodePending g t \<or> t = src)" by auto
  from Cons(1) [OF this, of c v] t rel show ?case
    by (simp add: isNodeReadyRec_relations.simps)
qed

text \<open>The deferred \<^verbatim>\<open>delete\<close> restores the set of visited keys: a call returns the set it
  was given.\<close>

lemma isNodeReadyRec_visited:
  "isNodeReadyRec g src current visited = Some (ready, visited') \<Longrightarrow>
     current \<notin> set visited \<Longrightarrow> visited' = visited"
  "isNodeReadyRec_relations g src current rels cycle visited = Some (ready, visited') \<Longrightarrow>
     visited' = visited"
  "isNodeReadyRec_targets g src current ts satisfied cycle visited = Some (res, visited') \<Longrightarrow>
     visited' = visited"
proof (induct g src current visited and g src current rels cycle visited
    and g src current ts satisfied cycle visited
    arbitrary: ready visited' and ready visited' and res visited'
    rule: isNodeReadyRec_isNodeReadyRec_relations_isNodeReadyRec_targets.induct)
  case (1 g src current visited)
  from 1(2) obtain v where
    r: "isNodeReadyRec_relations g src current (GetTargets g current DependencyRelation)
          False (keySet_add visited (GetKey current)) = Some (ready, v)"
    and v: "visited' = removeAll (GetKey current) v"
    by (auto simp: isNodeReadyRec.simps split: option.splits)
  from 1(1) [OF r] have "v = keySet_add visited (GetKey current)" .
  with v 1(3) show ?case by (simp add: keySet_add_def GetKey_def)
next
  case (2 g src current cycle visited)
  then show ?case by (simp add: isNodeReadyRec_relations.simps)
next
  case (3 g src current label targets rest cycle visited)
  from 3(3) obtain satisfied cycle' v where
    t: "isNodeReadyRec_targets g src current targets False cycle visited = Some ((satisfied, cycle'), v)"
    by (auto simp: isNodeReadyRec_relations.simps split: option.splits)
  from 3(1) [OF t] have v: "v = visited" .
  show ?case
  proof (cases satisfied)
    case True
    with 3(3) t have r: "isNodeReadyRec_relations g src current rest cycle' v = Some (ready, visited')"
      by (simp add: isNodeReadyRec_relations.simps)
    from True have ns: "\<not> \<not> satisfied" by simp
    from 3(2) [OF t refl refl ns r] v show ?thesis by simp
  next
    case False
    with 3(3) t v show ?thesis by (simp add: isNodeReadyRec_relations.simps)
  qed
next
  case (4 g src current satisfied cycle visited)
  then show ?case by (simp add: isNodeReadyRec_targets.simps)
next
  case (5 g src current target rest satisfied cycle visited)
  show ?case
  proof (cases "isNodeBeingRemoved g target")
    case None
    with 5(5) show ?thesis by (simp add: targets_diverges)
  next
    case (Some removed)
    show ?thesis
    proof (cases removed)
      case True
      with Some have rm: "isNodeBeingRemoved g target = Some True" by simp
      with 5(5) have "isNodeReadyRec_targets g src current rest satisfied cycle visited =
          Some (res, visited')" by (simp add: targets_removed)
      from 5(1) [OF rm refl this] show ?thesis .
    next
      case False
      with Some have rm: "isNodeBeingRemoved g target = Some False" by simp
      show ?thesis
      proof (cases "\<not> isNodePending g target \<and> GetKey current = GetKey src")
        case True
        with rm 5(5) show ?thesis by (simp add: targets_break GetKey_def)
      next
        case c1: False
        then have c1': "isNodePending g target \<or> current \<noteq> src" by (auto simp: GetKey_def)
        show ?thesis
        proof (cases "GetKey target = GetKey src")
          case True
          with rm c1' 5(5) show ?thesis by (simp add: targets_src GetKey_def)
        next
          case c2: False
          then have c2': "target \<noteq> src" by (simp add: GetKey_def)
          show ?thesis
          proof (cases "GetKey target \<in> set visited")
            case True
            then have "target \<in> set visited" by (simp add: GetKey_def)
            with rm c1' c2' 5(5)
            have r: "isNodeReadyRec_targets g src current rest
                (satisfied \<or> \<not> isNodePending g target) cycle visited = Some (res, visited')"
              by (simp add: targets_visited)
            from 5(2) [OF rm refl c1 c2 True r] show ?thesis .
          next
            case c3: False
            then have c3': "target \<notin> set visited" by (simp add: GetKey_def)
            note unf = targets_rec [OF rm c1' c2' c3', of rest satisfied cycle]
            from 5(5) unf obtain b v where
              r: "isNodeReadyRec g src target visited = Some (b, v)"
              by (cases "isNodeReadyRec g src target visited") auto
            from 5(3) [OF rm refl c1 c2 c3 r c3'] have v: "v = visited" .
            show ?thesis
            proof (cases b)
              case True
              with 5(5) unf r v show ?thesis by simp
            next
              case False
              with r have r': "isNodeReadyRec g src target visited = Some (False, v)" by simp
              with 5(5) unf
              have l: "isNodeReadyRec_targets g src current rest
                  (satisfied \<or> \<not> isNodePending g target) cycle v = Some (res, visited')"
                by simp
              from 5(4) [OF rm refl c1 c2 c3 r' refl _ l] v show ?thesis by simp
            qed
          qed
        qed
      qed
    qed
  qed
qed
















text \<open>\<open>sb\<close> comes from the southbound and depends on \<open>d\<close>, a derived node that derives
  from itself.\<close>

definition sb_graph :: "unit graph" where
  "sb_graph =
     [(''sb'', \<lparr>OriginFlag = Some FromSB, DerivedFlag = None, PendingFlag = None,
         LastChangeFlag = None,
         edgeTargets = (\<lambda>rel. if rel = DependencyRelation then [(''d'', [''d''])] else []),
         edgeSources = (\<lambda>rel. [])\<rparr>),
      (''d'', \<lparr>OriginFlag = Some FromNB, DerivedFlag = Some ''d'', PendingFlag = None,
         LastChangeFlag = None,
         edgeTargets = (\<lambda>rel. []),
         edgeSources = (\<lambda>rel. if rel = DerivesRelation then [''d''] else [])\<rparr>)]"




lemma sb_graph_loop_never:
  assumes "isNodeBeingRemoved_loop g base = Some z"
  shows "g = sb_graph \<longrightarrow> base = ''d'' \<longrightarrow> False"
proof (rule isNodeBeingRemoved_loop.raw_induct
    [where P = "\<lambda>g base z. g = sb_graph \<longrightarrow> base = ''d'' \<longrightarrow> False", OF _ assms])
  fix f :: "unit graph \<Rightarrow> Node \<Rightarrow> (bool \<times> Node) option" and g base z
  assume IH: "\<And>g base y. f g base = Some y \<Longrightarrow> g = sb_graph \<longrightarrow> base = ''d'' \<longrightarrow> False"
    and step: "(case GetSources g base DerivesRelation of
        [] \<Rightarrow> Some (False, base)
      | derivedFrom0 # x \<Rightarrow>
          if isNodePending g derivedFrom0 then Some (True, derivedFrom0)
          else f g derivedFrom0) = Some z"
  have src: "GetSources sb_graph ''d'' DerivesRelation = [''d'']" by code_simp
  have np: "\<not> isNodePending sb_graph ''d''" by code_simp
  show "g = sb_graph \<longrightarrow> base = ''d'' \<longrightarrow> False"
  proof (intro impI)
    assume "g = sb_graph" "base = ''d''"
    with step src np have "f sb_graph ''d'' = Some z" by simp
    from IH [OF this] show False by simp
  qed
qed

lemma sb_graph_loop_diverges: "isNodeBeingRemoved_loop sb_graph ''d'' = None"
  using sb_graph_loop_never [of sb_graph "''d''"] by (cases "isNodeBeingRemoved_loop sb_graph ''d''") auto

lemma sb_graph_dependencies_diverge: "isNodeReadyRec sb_graph ''sb'' ''sb'' [] = None"
proof -
  have tg: "GetTargets sb_graph ''sb'' DependencyRelation = [(''d'', [''d''])]" by code_simp
  have "isNodeDerived sb_graph ''d''" by code_simp
  then have "isNodeBeingRemoved sb_graph ''d'' = None"
    by (simp add: isNodeBeingRemoved_def sb_graph_loop_diverges)
  then show ?thesis
    by (simp add: isNodeReadyRec.simps tg isNodeReadyRec_relations.simps targets_diverges)
qed

text \<open>
  Claim C6.  For a node whose Origin flag holds FromSB, isNodeReady returns true at
  once: the result does not depend on the Dependency relations of the node, and it is
  returned even where their evaluation would not return.
\<close>

theorem isNodeReady_FromSB:
  "getNodeOrigin g node = FromSB \<Longrightarrow> isNodeReady g node = Some True"
  by (simp add: isNodeReady_def)

theorem isNodeReady_FromSB_witness:
  "getNodeOrigin sb_graph ''sb'' = FromSB \<and> isNodeReady sb_graph ''sb'' = Some True \<and>
   GetTargets sb_graph ''sb'' DependencyRelation = [(''d'', [''d''])] \<and>
   isNodeReadyRec sb_graph ''sb'' ''sb'' [] = None"
proof -
  have h: "getNodeOrigin sb_graph ''sb'' = FromSB" by code_simp
  have tg: "GetTargets sb_graph ''sb'' DependencyRelation = [(''d'', [''d''])]" by code_simp
  from isNodeReady_FromSB [OF h] h tg sb_graph_dependencies_diverge show ?thesis by simp
qed






section \<open>TopologicalOrder on a heap\<close>

text \<open>
  Go maps are references: a callee that writes to a map it was given changes the map of
  its caller.  To say what TopologicalOrder does to its arguments, the key sets and the
  maps from keys to key sets live in a heap and are named by their addresses.  An
  address is an index into the heap; a new object is put at the end, so it never
  shares its address with an older one.  Reading an address that holds nothing gives
  the empty set (as reading a \<^verbatim>\<open>nil\<close> map does).
\<close>

record heap =
  sets :: "KeySet list"
  maps :: "(string \<times> nat) list list"

definition readSet :: "heap \<Rightarrow> nat \<Rightarrow> KeySet" where
  "readSet h a = (if a < length (sets h) then sets h ! a else [])"

definition readEntries :: "heap \<Rightarrow> nat \<Rightarrow> (string \<times> nat) list" where
  "readEntries h m = (if m < length (maps h) then maps h ! m else [])"




definition writeSet :: "heap \<Rightarrow> nat \<Rightarrow> KeySet \<Rightarrow> heap" where
  "writeSet h a ks = h\<lparr>sets := (sets h)[a := ks]\<rparr>"

definition writeEntries :: "heap \<Rightarrow> nat \<Rightarrow> (string \<times> nat) list \<Rightarrow> heap" where
  "writeEntries h m es = h\<lparr>maps := (maps h)[m := es]\<rparr>"



definition hDel :: "heap \<Rightarrow> nat \<Rightarrow> string \<Rightarrow> heap" where
  "hDel h a key = writeSet h a (Del (readSet h a) key)"




text \<open>Lines 102-107.\<close>

definition hRemoveKey :: "heap \<Rightarrow> nat \<Rightarrow> nat \<Rightarrow> string \<Rightarrow> heap" where
  "hRemoveKey h remainsA remainsDepsA key =
     (let h1 = hDel h remainsA key;
          h2 = writeEntries h1 remainsDepsA
                 (filter (\<lambda>(key2, a). key2 \<noteq> key) (readEntries h1 remainsDepsA))
      in fold (\<lambda>(key2, a) h. hDel h a key) (readEntries h2 remainsDepsA) h2)"


lemma readSet_writeEntries [simp]: "readSet (writeEntries h m es) a = readSet h a"
  by (simp add: readSet_def writeEntries_def)









text \<open>\<open>preserves h0 h\<close>: every object of \<open>h0\<close> is in \<open>h\<close>, at its address and with its
  content; \<open>h\<close> may hold more objects.\<close>

definition preserves :: "heap \<Rightarrow> heap \<Rightarrow> bool" where
  "preserves h0 h =
     (take (length (sets h0)) (sets h) = sets h0 \<and> take (length (maps h0)) (maps h) = maps h0)"








lemma readEntries_hDel [simp]: "readEntries (hDel h a key) m = readEntries h m"
  by (simp add: readEntries_def hDel_def writeSet_def)

lemma readEntries_fold_hDel [simp]:
  "readEntries (fold (\<lambda>(key2, a) h. hDel h a key) es h) m = readEntries h m"
  by (induct es arbitrary: h) (auto split: prod.splits)









lemma preserves_length:
  "preserves h0 h \<Longrightarrow> length (sets h0) \<le> length (sets h) \<and> length (maps h0) \<le> length (maps h)"
  unfolding preserves_def by (metis length_take min.cobounded1)







lemma maps_hDel [simp]: "maps (hDel h a key) = maps h"
  by (simp add: hDel_def writeSet_def)

lemma maps_fold_hDel [simp]: "maps (fold (\<lambda>(key2, a) h. hDel h a key) es h) = maps h"
  by (induct es arbitrary: h) (auto split: prod.splits)

lemma length_sets_hDel [simp]: "length (sets (hDel h a key)) = length (sets h)"
  by (simp add: hDel_def writeSet_def)

lemma length_sets_fold_hDel [simp]:
  "length (sets (fold (\<lambda>(key2, a) h. hDel h a key) es h)) = length (sets h)"
  by (induct es arbitrary: h) (auto split: prod.splits)

lemma length_sets_hRemoveKey [simp]:
  "length (sets (hRemoveKey h remainsA remainsDepsA key)) = length (sets h)"
  by (simp add: hRemoveKey_def Let_def writeEntries_def)




lemma preserves_trans: "preserves h0 h1 \<Longrightarrow> preserves h1 h2 \<Longrightarrow> preserves h0 h2"
proof -
  assume a: "preserves h0 h1" and b: "preserves h1 h2"
  from preserves_length [OF a] have l: "length (sets h0) \<le> length (sets h1)"
    "length (maps h0) \<le> length (maps h1)" by simp_all
  from b have "take (length (sets h1)) (sets h2) = sets h1"
    "take (length (maps h1)) (maps h2) = maps h1" by (simp_all add: preserves_def)
  then have "take (length (sets h0)) (sets h2) = take (length (sets h0)) (sets h1)"
    "take (length (maps h0)) (maps h2) = take (length (maps h0)) (maps h1)"
    using l by (metis min.absorb2 min.commute take_take)+
  with a show ?thesis by (simp add: preserves_def)
qed





lemma sets_writeEntries [simp]: "sets (writeEntries h m es) = sets h"
  by (simp add: writeEntries_def)

lemma length_maps_writeEntries [simp]: "length (maps (writeEntries h m es)) = length (maps h)"
  by (simp add: writeEntries_def)








end
